theory Spec2Isabelle
  imports Main "HOL-Library.Word" "HOL-Library.Signed_Division"
begin

section \<open>Machine types and configuration constants of the cell module firmware\<close>

text \<open>
  The firmware runs on an 8-bit AVR: \<open>long\<close> is a signed 32-bit integer, \<open>unsigned int\<close>
  an unsigned 16-bit integer and \<open>byte\<close> an unsigned 8-bit integer.  Voltages (\<open>long\<close>) are
  32-bit words compared with the signed orderings \<open><s\<close> and \<open>\<le>s\<close>; the tick counters
  (\<open>unsigned int\<close>) are 16-bit words compared with the unsigned ordering.  The \<open>const int\<close>
  thresholds are promoted to \<open>long\<close> at every comparison, so they are given as 32-bit words.
\<close>

type_synonym long = "32 word"
type_synonym uint = "16 word"

definition c_LVoltage_engage :: long where
  "c_LVoltage_engage = 2900"

definition c_LVoltage_disengage :: long where
  "c_LVoltage_disengage = 2950"

definition c_HVoltage_engage :: long where
  "c_HVoltage_engage = 3600"

definition c_HVoltage_disengage :: long where
  "c_HVoltage_disengage = 3550"

definition c_ShuntVoltage_engage :: long where
  "c_ShuntVoltage_engage = 3500"

definition c_ShuntVoltage_disengage :: long where
  "c_ShuntVoltage_disengage = 3450"

definition c_MovingAverageWindow :: nat where
  "c_MovingAverageWindow = 5"

definition c_StateSettleTime :: uint where
  "c_StateSettleTime = 3"

definition c_RecentCutOffDuration :: uint where
  "c_RecentCutOffDuration = 30 * 60"

definition c_NoCutoffEvent :: uint where
  "c_NoCutoffEvent = 0xffff"

section \<open>Module state\<close>

datatype cell = e_CellInvalid | e_CellNorm | e_CellLVC | e_CellHVC

text \<open>The global variables of the firmware, gathered in one record.\<close>

record state =
  cellvoltage :: long
  avg_buffer :: "long list"
  avg_index :: nat
  cellstate :: cell
  cellstate_pending :: cell
  cellstate_pending_age :: uint
  shunting :: bool
  shunting_pending :: bool
  shunting_pending_age :: uint
  last_cutoff_age :: uint
  ADMUX :: "8 word"

section \<open>Voltage filter\<close>

text \<open>C division of two \<open>long\<close> values: the quotient is truncated towards zero.\<close>

definition long_div :: "long \<Rightarrow> long \<Rightarrow> long" where
  "long_div a b = word_of_int (sint a sdiv sint b)"

text \<open>
  \<open>moving_average\<close>: store the value at the cursor, advance the cursor (a \<open>byte\<close>
  post-increment followed by the remainder modulo the window size), then sum all slots
  with the \<open>for\<close> loop over \<open>ii = 0 .. c_MovingAverageWindow - 1\<close> and divide.  The sum is
  a \<open>long\<close>: additions wrap around at 32 bits.  A cursor outside the window would make
  the C code write outside the array; the state after \<open>setup\<close> and every pass of the main loop keep the
  cursor inside the window (lemmas \<open>setup_state_window\<close> and \<open>loop_window\<close>), and the
  statements about the filter assume it.
\<close>

definition moving_average :: "long \<Rightarrow> state \<Rightarrow> long \<times> state" where
  "moving_average val s =
     (let buf = (avg_buffer s)[avg_index s := val];
          idx = ((avg_index s + 1) mod 256) mod c_MovingAverageWindow;
          sum = fold (\<lambda>ii sum. sum + buf ! ii) [0..<c_MovingAverageWindow] 0
      in (long_div sum (of_nat c_MovingAverageWindow),
          s\<lparr>avg_buffer := buf, avg_index := idx\<rparr>))"

section \<open>Cell state calculation\<close>

text \<open>
  The first half of \<open>determine_cellstate\<close>: the proposals \<open>shunting_new\<close> and
  \<open>cellstate_new\<close>, computed by a sequence of \<open>if\<close> statements that each may overwrite
  the proposal made so far.
\<close>

definition shunting_new :: "long \<Rightarrow> bool \<Rightarrow> bool" where
  "shunting_new v sh =
     (let n = sh;
          n = (if \<not> sh \<and> c_ShuntVoltage_engage <s v then True else n);
          n = (if sh \<and> v <s c_ShuntVoltage_disengage then False else n)
      in n)"

definition cellstate_new :: "long \<Rightarrow> cell \<Rightarrow> cell" where
  "cellstate_new v cs =
     (let n = cs;
          n = (if cs = e_CellHVC \<and> v <s c_HVoltage_disengage then e_CellNorm else n);
          n = (if cs = e_CellLVC \<and> c_LVoltage_disengage <s v then e_CellNorm else n);
          n = (if cs = e_CellInvalid \<and> c_LVoltage_engage <s v \<and> v <s c_HVoltage_engage
               then e_CellNorm else n);
          n = (if c_LVoltage_disengage <s v \<and> v <s c_HVoltage_disengage then e_CellNorm else n);
          n = (if c_HVoltage_engage \<le>s v then e_CellHVC else n);
          n = (if v \<le>s c_LVoltage_engage then e_CellLVC else n)
      in n)"

text \<open>
  \<open>determine_cellstate\<close>: the proposals are computed from the state on entry, the shunt
  debounce is applied, and then, unless the cell proposal is \<open>e_CellInvalid\<close> (the early
  \<open>return\<close>), the cell debounce.
\<close>

definition determine_cellstate :: "state \<Rightarrow> state" where
  "determine_cellstate s =
     (let cs_new = cellstate_new (cellvoltage s) (cellstate s);
          sh_new = shunting_new (cellvoltage s) (shunting s);
          s1 = (if shunting_pending s \<noteq> sh_new
                then s\<lparr>shunting_pending := sh_new, shunting_pending_age := 0\<rparr>
                else if c_StateSettleTime < shunting_pending_age s
                then s\<lparr>shunting := sh_new\<rparr>
                else s\<lparr>shunting_pending_age := shunting_pending_age s + 1\<rparr>)
      in if cs_new = e_CellInvalid then s1
         else if cellstate_pending s1 \<noteq> cs_new
         then s1\<lparr>cellstate_pending := cs_new, cellstate_pending_age := 0\<rparr>
         else if c_StateSettleTime < cellstate_pending_age s1
         then s1\<lparr>cellstate := cs_new\<rparr>
         else s1\<lparr>cellstate_pending_age := cellstate_pending_age s1 + 1\<rparr>)"

text \<open>
  One debounce step on a given filtered voltage, and a run of such steps on a sequence
  of filtered voltages (one per tick, oldest first).
\<close>

definition tick :: "long \<Rightarrow> state \<Rightarrow> state" where
  "tick v s = determine_cellstate (s\<lparr>cellvoltage := v\<rparr>)"

definition run_ticks :: "long list \<Rightarrow> state \<Rightarrow> state" where
  "run_ticks vs s = fold tick vs s"

section \<open>Start-up and main loop\<close>

text \<open>
  The output lines and the waiting done by one pass of \<open>loop\<close> are recorded as the list
  of actions in the order the code performs them, the settling wait of \<open>readADC\<close>
  included.  Delays are in milliseconds, except \<open>delayMicroseconds\<close>; \<open>deep_sleep\<close>
  carries the watchdog timeout in milliseconds.
\<close>

datatype action =
    LED_ON | LED_OFF
  | SHUNT_ON | SHUNT_OFF
  | LOOP_CLOSE | LOOP_OPEN
  | delay nat
  | delayMicroseconds nat
  | deep_sleep nat

text \<open>
  The state at the end of the firmware's \<open>setup\<close> routine: the initial values of the
  globals, followed by the assignments of that routine.  The multiplexer register
  \<open>ADMUX\<close> is not written before the first measurement and holds its reset value 0.
\<close>

definition setup_state :: state where
  "setup_state = \<lparr>cellvoltage = 3200,
            avg_buffer = replicate c_MovingAverageWindow 3200,
            avg_index = 0,
            cellstate = e_CellInvalid,
            cellstate_pending = e_CellInvalid,
            cellstate_pending_age = 0,
            shunting = False,
            shunting_pending = False,
            shunting_pending_age = 0,
            last_cutoff_age = 0,
            ADMUX = 0\<rparr>"

text \<open>The two LED pulses of the normal branch: plain, or inverted.\<close>

definition led_pulse :: "bool \<Rightarrow> action list" where
  "led_pulse invert_led =
     [if \<not> invert_led then LED_ON else LED_OFF, delay 20,
      if \<not> invert_led then LED_OFF else LED_ON]"

text \<open>
  The multiplexer setting that measures the 1.1 V reference against the supply, for the
  ATtiny25/45/85 the module is built on (\<open>_BV(MUX3) | _BV(MUX2)\<close>).
\<close>

definition ADMUX_VCCWRT1V1 :: "8 word" where
  "ADMUX_VCCWRT1V1 = 0x0C"

text \<open>
  The start of \<open>readADC\<close>: a call that finds another multiplexer setting selects the
  reference and waits 350 microseconds for it to settle.  The conversion itself is done
  by the hardware; its calibrated result is the reading \<open>vcc\<close> below.
\<close>

definition readADC_select :: "state \<Rightarrow> state \<times> action list" where
  "readADC_select s =
     (if ADMUX s \<noteq> ADMUX_VCCWRT1V1
      then (s\<lparr>ADMUX := ADMUX_VCCWRT1V1\<rparr>, [delayMicroseconds 350])
      else (s, []))"

text \<open>
  \<open>readVcc\<close> on a conversion result \<open>adc\<close>, and the calibration factor the main loop
  passes to it: an \<open>unsigned long\<close> constant expression (unsigned 32-bit division),
  converted to \<open>long\<close> at the call.  The converter has 10 bits, so \<open>adc\<close> is at most 1023.
\<close>

definition calibration_voltage_metered :: "32 word" where
  "calibration_voltage_metered = 3200"

definition calibration_voltage_software :: "32 word" where
  "calibration_voltage_software = 3200"

definition calibration_factor_custom :: "32 word" where
  "calibration_factor_custom =
     ((1024 * 11 * 1000) div (10 * calibration_voltage_software)) * calibration_voltage_metered"

definition readVcc :: "long \<Rightarrow> long \<Rightarrow> long" where
  "readVcc calibration_factor adc = long_div calibration_factor adc"

text \<open>
  The first part of \<open>loop\<close> (normal mode): the counter increment, the measurement
  through the filter and the state calculation.  The calibrated reading \<open>vcc\<close> is what
  \<open>readVcc\<close> returns on this pass.
\<close>

definition measure_step :: "long \<Rightarrow> state \<Rightarrow> state" where
  "measure_step vcc s =
     (let s = (if last_cutoff_age s \<noteq> c_NoCutoffEvent
               then s\<lparr>last_cutoff_age := last_cutoff_age s + 1\<rparr> else s);
          s = fst (readADC_select s);
          (v, s) = moving_average vcc s;
          s = s\<lparr>cellvoltage := v\<rparr>
      in determine_cellstate s)"

text \<open>The \<open>switch\<close> on the committed cell state: new state and the actions performed.\<close>

definition switch_step :: "state \<Rightarrow> state \<times> action list" where
  "switch_step s =
     (case cellstate s of
        e_CellLVC \<Rightarrow>
          (s\<lparr>last_cutoff_age := 0\<rparr>, [LOOP_OPEN, LED_OFF, SHUNT_OFF, deep_sleep 1000])
      | e_CellNorm \<Rightarrow>
          (let invert_led = (last_cutoff_age s < c_RecentCutOffDuration);
               s = (if invert_led then s else s\<lparr>last_cutoff_age := c_NoCutoffEvent\<rparr>)
           in (s, [LOOP_CLOSE] @
                  (if \<not> shunting s
                   then [SHUNT_OFF] @ led_pulse invert_led @ [deep_sleep 1000]
                   else [SHUNT_ON, LED_OFF, delay 500, LED_ON, delay 500,
                         SHUNT_OFF, delay 100, LED_OFF])))
      | e_CellHVC \<Rightarrow>
          (s\<lparr>last_cutoff_age := 0\<rparr>,
           [LOOP_OPEN, SHUNT_ON] @ concat (replicate 10 [LED_OFF, delay 50, LED_ON, delay 50])
             @ [SHUNT_OFF, delay 100])
      | e_CellInvalid \<Rightarrow>
          (s, [LOOP_CLOSE, SHUNT_OFF] @
              concat (replicate 3 [LED_ON, delay 166, LED_OFF, delay 166])))"

definition loop :: "long \<Rightarrow> state \<Rightarrow> state \<times> action list" where
  "loop vcc s =
     (let (s', acts) = switch_step (measure_step vcc s)
      in (s', [LED_OFF, SHUNT_OFF, delayMicroseconds 200] @ snd (readADC_select s) @ acts))"

text \<open>Running \<open>loop\<close> on a sequence of readings, one per pass, keeping the final state.\<close>

fun run_loop :: "long list \<Rightarrow> state \<Rightarrow> state" where
  "run_loop [] s = s"
| "run_loop (vcc # vccs) s = run_loop vccs (fst (loop vcc s))"

text \<open>The states at the end of each pass, in order.\<close>

fun loop_trace :: "long list \<Rightarrow> state \<Rightarrow> state list" where
  "loop_trace [] s = []"
| "loop_trace (vcc # vccs) s = fst (loop vcc s) # loop_trace vccs (fst (loop vcc s))"

text \<open>Pushing a sequence of readings through the filter, keeping the last filtered value.\<close>

fun push_readings :: "long list \<Rightarrow> long \<times> state \<Rightarrow> long \<times> state" where
  "push_readings [] rs = rs"
| "push_readings (val # vals) rs = push_readings vals (moving_average val (snd rs))"

text \<open>
  The readings of the end-to-end scenario: three readings of 3200 mV, then 2850 mV on
  every further pass (thirteen passes in all).
\<close>

definition scenario_readings :: "long list" where
  "scenario_readings = [3200, 3200, 3200] @ replicate 10 2850"

text \<open>
  The value of the recency counter \<open>k\<close> passes after it was zero, when every one of these
  passes ended in the committed state \<open>e_CellNorm\<close>.
\<close>

definition recency_after :: "nat \<Rightarrow> uint" where
  "recency_after k = (if k < unat c_RecentCutOffDuration then of_nat k else c_NoCutoffEvent)"

text \<open>
  What is known of the recency counter \<open>k\<close> passes after it was zero, when none of these
  passes ended in a cutoff state: below the recent-cutoff duration it counts the passes,
  from then on it is at least the duration.
\<close>

definition recency_inv :: "nat \<Rightarrow> uint \<Rightarrow> bool" where
  "recency_inv k c \<longleftrightarrow>
     (if k < unat c_RecentCutOffDuration then c = of_nat k else c_RecentCutOffDuration \<le> c)"

text \<open>
  A module at rest on a nominal cell: every slot of the window holds 3200 mV, the
  committed and the pending cell state are \<open>e_CellNorm\<close>, and shunting is off and not
  pending.
\<close>

definition steady_normal :: "state \<Rightarrow> bool" where
  "steady_normal s \<longleftrightarrow>
     avg_buffer s = replicate c_MovingAverageWindow 3200 \<and>
     avg_index s < c_MovingAverageWindow \<and>
     cellstate s = e_CellNorm \<and> cellstate_pending s = e_CellNorm \<and>
     \<not> shunting s \<and> \<not> shunting_pending s"

section \<open>The classifier as the specification words it\<close>

text \<open>
  The seven rules of the decision algorithm as a list of guarded proposals, in the
  order of the specification; rule 1 (the default) is the starting value.  Evaluation
  walks the list from the first rule to the last, and a rule whose guard holds
  replaces the proposal made so far.
\<close>

definition spec_rules :: "((long \<Rightarrow> cell \<Rightarrow> bool) \<times> cell) list" where
  "spec_rules =
     [(\<lambda>v cs. cs = e_CellHVC \<and> v <s c_HVoltage_disengage, e_CellNorm),
      (\<lambda>v cs. cs = e_CellLVC \<and> c_LVoltage_disengage <s v, e_CellNorm),
      (\<lambda>v cs. cs = e_CellInvalid \<and> c_LVoltage_engage <s v \<and> v <s c_HVoltage_engage, e_CellNorm),
      (\<lambda>v cs. c_LVoltage_disengage <s v \<and> v <s c_HVoltage_disengage, e_CellNorm),
      (\<lambda>v cs. c_HVoltage_engage \<le>s v, e_CellHVC),
      (\<lambda>v cs. v \<le>s c_LVoltage_engage, e_CellLVC)]"

definition spec_classify :: "long \<Rightarrow> cell \<Rightarrow> cell" where
  "spec_classify v cs =
     foldl (\<lambda>proposal (guard, result). if guard v cs then result else proposal) cs spec_rules"

section \<open>Auxiliary facts\<close>

lemmas thresholds =
  c_LVoltage_engage_def c_LVoltage_disengage_def c_HVoltage_engage_def
  c_HVoltage_disengage_def c_ShuntVoltage_engage_def c_ShuntVoltage_disengage_def

lemma cellstate_new_band:
  "c_LVoltage_disengage <s v \<Longrightarrow> v <s c_HVoltage_disengage \<Longrightarrow> cellstate_new v cs = e_CellNorm"
  by (simp add: cellstate_new_def Let_def thresholds word_sle_eq word_sless_alt)

lemma cellstate_new_high:
  "c_HVoltage_engage \<le>s v \<Longrightarrow> cellstate_new v cs = e_CellHVC"
  by (simp add: cellstate_new_def Let_def thresholds word_sle_eq word_sless_alt)

lemma cellstate_new_low:
  "v \<le>s c_LVoltage_engage \<Longrightarrow> cellstate_new v cs = e_CellLVC"
  by (simp add: cellstate_new_def Let_def)

lemma cellstate_new_not_invalid: "cellstate_new v cs \<noteq> e_CellInvalid"
  by (cases cs) (auto simp add: cellstate_new_def Let_def thresholds word_sle_eq word_sless_alt)

lemma cellstate_new_hvc_at_disengage:
  "cellstate_new c_HVoltage_disengage e_CellHVC = e_CellHVC"
  by (simp add: cellstate_new_def Let_def thresholds word_sle_eq word_sless_alt)

lemma cellstate_new_hvc_norm_iff:
  "cellstate_new v e_CellHVC = e_CellNorm \<longleftrightarrow> c_LVoltage_engage <s v \<and> v <s c_HVoltage_disengage"
  by (auto simp add: cellstate_new_def Let_def thresholds word_sle_eq word_sless_alt)

lemma tick_cell:
  "cellstate_pending (tick v s) = cellstate_new v (cellstate s)"
  "cellstate_pending_age (tick v s) =
     (if cellstate_pending s \<noteq> cellstate_new v (cellstate s) then 0
      else if c_StateSettleTime < cellstate_pending_age s then cellstate_pending_age s
      else cellstate_pending_age s + 1)"
  "cellstate (tick v s) =
     (if cellstate_pending s = cellstate_new v (cellstate s) \<and> c_StateSettleTime < cellstate_pending_age s
      then cellstate_new v (cellstate s) else cellstate s)"
  using cellstate_new_not_invalid[of v "cellstate s"]
  by (simp_all add: tick_def determine_cellstate_def Let_def)

lemma tick_shunt:
  "shunting_pending (tick v s) = shunting_new v (shunting s)"
  "shunting_pending_age (tick v s) =
     (if shunting_pending s \<noteq> shunting_new v (shunting s) then 0
      else if c_StateSettleTime < shunting_pending_age s then shunting_pending_age s
      else shunting_pending_age s + 1)"
  "shunting (tick v s) =
     (if shunting_pending s = shunting_new v (shunting s) \<and> c_StateSettleTime < shunting_pending_age s
      then shunting_new v (shunting s) else shunting s)"
  using cellstate_new_not_invalid[of v "cellstate s"]
  by (simp_all add: tick_def determine_cellstate_def Let_def)

lemma age_step:
  fixes a :: uint
  assumes "n \<le> unat a"
  shows "min (Suc n) 4 \<le> unat (if c_StateSettleTime < a then a else a + 1)"
  using assms by (auto simp: c_StateSettleTime_def word_less_nat_alt unat_word_ariths not_less)

lemma run_ticks_snoc: "run_ticks (vs @ [v]) s = tick v (run_ticks vs s)"
  by (simp add: run_ticks_def)

lemma run_ticks_Nil: "run_ticks [] s = s"
  by (simp add: run_ticks_def)

lemma run_ticks_Cons: "run_ticks (v # vs) s = run_ticks vs (tick v s)"
  by (simp add: run_ticks_def)

lemma run_ticks_append: "run_ticks (vs @ ws) s = run_ticks ws (run_ticks vs s)"
  by (simp add: run_ticks_def)

text \<open>A committed state that every voltage of the run proposes again is kept.\<close>

lemma run_ticks_keep:
  assumes "cellstate s = p" and "\<forall>v \<in> set vs. cellstate_new v p = p"
  shows "cellstate (run_ticks vs s) = p"
  using assms
proof (induction vs arbitrary: s)
  case Nil
  then show ?case by (simp add: run_ticks_Nil)
next
  case (Cons v vs)
  have "cellstate (tick v s) = p"
    using Cons.prems by (simp add: tick_cell)
  then show ?case
    using Cons by (simp add: run_ticks_Cons)
qed

text \<open>Progress of the cell debounce while every tick proposes the same state \<open>p\<close>.\<close>

lemma pending_progress:
  assumes "\<forall>v \<in> set vs. \<forall>cs. cellstate_new v cs = p" and "vs \<noteq> []"
  shows "cellstate_pending (run_ticks vs s) = p \<and>
         min (length vs - 1) 4 \<le> unat (cellstate_pending_age (run_ticks vs s))"
  using assms
proof (induction vs rule: rev_induct)
  case Nil
  then show ?case by simp
next
  case (snoc v vs)
  let ?s = "run_ticks vs s"
  have p: "cellstate_new v (cellstate ?s) = p"
    using snoc.prems by simp
  show ?case
  proof (cases "vs = []")
    case True
    then show ?thesis using p by (simp add: run_ticks_Cons run_ticks_Nil tick_cell)
  next
    case False
    then have ih: "cellstate_pending ?s = p"
      "min (length vs - 1) 4 \<le> unat (cellstate_pending_age ?s)"
      using snoc by simp_all
    have "min (Suc (min (length vs - 1) 4)) 4 \<le>
          unat (if c_StateSettleTime < cellstate_pending_age ?s
                then cellstate_pending_age ?s else cellstate_pending_age ?s + 1)"
      by (rule age_step) (rule ih(2))
    moreover have "min (length (vs @ [v]) - 1) 4 = min (Suc (min (length vs - 1) 4)) 4"
      using False by (cases vs) auto
    ultimately show ?thesis
      using p ih(1) by (simp add: run_ticks_snoc tick_cell)
  qed
qed

lemma run_ticks_commit:
  assumes "\<forall>v \<in> set vs. \<forall>cs. cellstate_new v cs = p" and "6 \<le> length vs"
  shows "cellstate (run_ticks vs s) = p"
proof -
  from assms(2) obtain ws v where vs: "vs = ws @ [v]"
    by (cases vs rule: rev_cases) auto
  with assms(2) have len: "5 \<le> length ws" by simp
  then have "ws \<noteq> []" by auto
  with assms(1) vs
  have "cellstate_pending (run_ticks ws s) = p"
       "min (length ws - 1) 4 \<le> unat (cellstate_pending_age (run_ticks ws s))"
    using pending_progress[of ws p s] by simp_all
  moreover have "min (length ws - 1) 4 = 4" using len by simp
  ultimately have "cellstate_pending (run_ticks ws s) = p"
    "c_StateSettleTime < cellstate_pending_age (run_ticks ws s)"
    by (simp_all add: c_StateSettleTime_def word_less_nat_alt)
  moreover have "cellstate_new v (cellstate (run_ticks ws s)) = p"
    using assms(1) vs by simp
  ultimately show ?thesis
    by (simp add: vs run_ticks_snoc tick_cell)
qed

text \<open>The shunt debounce, with the same structure as the cell debounce.\<close>

lemma shunting_new_above_engage:
  "shunting_new (c_ShuntVoltage_engage + 1) sh = True"
  by (simp add: shunting_new_def Let_def thresholds word_sle_eq word_sless_alt)

lemma shunt_progress:
  assumes "\<forall>v \<in> set vs. \<forall>sh. shunting_new v sh = b" and "vs \<noteq> []"
  shows "shunting_pending (run_ticks vs s) = b \<and>
         min (length vs - 1) 4 \<le> unat (shunting_pending_age (run_ticks vs s))"
  using assms
proof (induction vs rule: rev_induct)
  case Nil
  then show ?case by simp
next
  case (snoc v vs)
  let ?s = "run_ticks vs s"
  have p: "shunting_new v (shunting ?s) = b"
    using snoc.prems by simp
  show ?case
  proof (cases "vs = []")
    case True
    then show ?thesis using p by (simp add: run_ticks_Cons run_ticks_Nil tick_shunt)
  next
    case False
    then have ih: "shunting_pending ?s = b"
      "min (length vs - 1) 4 \<le> unat (shunting_pending_age ?s)"
      using snoc by simp_all
    have "min (Suc (min (length vs - 1) 4)) 4 \<le>
          unat (if c_StateSettleTime < shunting_pending_age ?s
                then shunting_pending_age ?s else shunting_pending_age ?s + 1)"
      by (rule age_step) (rule ih(2))
    moreover have "min (length (vs @ [v]) - 1) 4 = min (Suc (min (length vs - 1) 4)) 4"
      using False by (cases vs) auto
    ultimately show ?thesis
      using p ih(1) by (simp add: run_ticks_snoc tick_shunt)
  qed
qed

lemma shunt_commit:
  assumes "\<forall>v \<in> set vs. \<forall>sh. shunting_new v sh = b" and "6 \<le> length vs"
  shows "shunting (run_ticks vs s) = b"
proof -
  from assms(2) obtain ws v where vs: "vs = ws @ [v]"
    by (cases vs rule: rev_cases) auto
  with assms(2) have len: "5 \<le> length ws" by simp
  then have "ws \<noteq> []" by auto
  with assms(1) vs
  have "shunting_pending (run_ticks ws s) = b"
       "min (length ws - 1) 4 \<le> unat (shunting_pending_age (run_ticks ws s))"
    using shunt_progress[of ws b s] by simp_all
  moreover have "min (length ws - 1) 4 = 4" using len by simp
  ultimately have "shunting_pending (run_ticks ws s) = b"
    "c_StateSettleTime < shunting_pending_age (run_ticks ws s)"
    by (simp_all add: c_StateSettleTime_def word_less_nat_alt)
  moreover have "shunting_new v (shunting (run_ticks ws s)) = b"
    using assms(1) vs by simp
  ultimately show ?thesis
    by (simp add: vs run_ticks_snoc tick_shunt)
qed

text \<open>One pass of the main loop, field by field, and the recency counter.\<close>

lemma readADC_select_frame:
  "ADMUX (fst (readADC_select s)) = ADMUX_VCCWRT1V1"
  "last_cutoff_age (fst (readADC_select s)) = last_cutoff_age s"
  "avg_buffer (fst (readADC_select s)) = avg_buffer s"
  "avg_index (fst (readADC_select s)) = avg_index s"
  "cellstate (fst (readADC_select s)) = cellstate s"
  "cellstate_pending (fst (readADC_select s)) = cellstate_pending s"
  "cellstate_pending_age (fst (readADC_select s)) = cellstate_pending_age s"
  "shunting (fst (readADC_select s)) = shunting s"
  "shunting_pending (fst (readADC_select s)) = shunting_pending s"
  "shunting_pending_age (fst (readADC_select s)) = shunting_pending_age s"
  by (simp_all add: readADC_select_def)

lemma readADC_select_actions:
  "snd (readADC_select s) = (if ADMUX s \<noteq> ADMUX_VCCWRT1V1 then [delayMicroseconds 350] else [])"
  by (simp add: readADC_select_def)

lemma moving_average_frame:
  "ADMUX (snd (moving_average val s)) = ADMUX s"
  "last_cutoff_age (snd (moving_average val s)) = last_cutoff_age s"
  "cellstate (snd (moving_average val s)) = cellstate s"
  "cellstate_pending (snd (moving_average val s)) = cellstate_pending s"
  "cellstate_pending_age (snd (moving_average val s)) = cellstate_pending_age s"
  "shunting (snd (moving_average val s)) = shunting s"
  "shunting_pending (snd (moving_average val s)) = shunting_pending s"
  "shunting_pending_age (snd (moving_average val s)) = shunting_pending_age s"
  by (simp_all add: moving_average_def Let_def)

lemma determine_cellstate_frame:
  "ADMUX (determine_cellstate s) = ADMUX s"
  "last_cutoff_age (determine_cellstate s) = last_cutoff_age s"
  "avg_buffer (determine_cellstate s) = avg_buffer s"
  "avg_index (determine_cellstate s) = avg_index s"
  by (simp_all add: determine_cellstate_def Let_def)

lemma measure_step_unfold:
  "measure_step vcc s =
     determine_cellstate
       ((snd (moving_average vcc (fst (readADC_select
            (if last_cutoff_age s \<noteq> c_NoCutoffEvent
             then s\<lparr>last_cutoff_age := last_cutoff_age s + 1\<rparr> else s)))))
        \<lparr>cellvoltage := fst (moving_average vcc (fst (readADC_select
            (if last_cutoff_age s \<noteq> c_NoCutoffEvent
             then s\<lparr>last_cutoff_age := last_cutoff_age s + 1\<rparr> else s))))\<rparr>)"
  by (simp add: measure_step_def split_def Let_def)

lemma measure_step_last_cutoff_age:
  "last_cutoff_age (measure_step vcc s) =
     (if last_cutoff_age s \<noteq> c_NoCutoffEvent then last_cutoff_age s + 1 else last_cutoff_age s)"
  by (simp add: measure_step_unfold determine_cellstate_frame moving_average_frame
      readADC_select_frame)

lemma measure_step_ADMUX: "ADMUX (measure_step vcc s) = ADMUX_VCCWRT1V1"
  by (simp add: measure_step_unfold determine_cellstate_frame moving_average_frame
      readADC_select_frame)

lemma loop_state: "fst (loop vcc s) = fst (switch_step (measure_step vcc s))"
  by (simp add: loop_def split_def Let_def)

lemma loop_actions:
  "snd (loop vcc s) = [LED_OFF, SHUNT_OFF, delayMicroseconds 200] @ snd (readADC_select s) @
     snd (switch_step (measure_step vcc s))"
  by (simp add: loop_def split_def Let_def)

lemma switch_step_frame:
  "cellstate (fst (switch_step s)) = cellstate s"
  "shunting (fst (switch_step s)) = shunting s"
  "ADMUX (fst (switch_step s)) = ADMUX s"
  "cellstate_pending (fst (switch_step s)) = cellstate_pending s"
  "shunting_pending (fst (switch_step s)) = shunting_pending s"
  by (simp_all add: switch_step_def Let_def split: cell.splits)

lemma loop_cellstate: "cellstate (fst (loop vcc s)) = cellstate (measure_step vcc s)"
  by (simp add: loop_state switch_step_frame)

lemma loop_shunting: "shunting (fst (loop vcc s)) = shunting (measure_step vcc s)"
  by (simp add: loop_state switch_step_frame)

lemma loop_ADMUX: "ADMUX (fst (loop vcc s)) = ADMUX_VCCWRT1V1"
  by (simp add: loop_state switch_step_frame measure_step_ADMUX)

lemma loop_last_cutoff_age:
  "last_cutoff_age (fst (loop vcc s)) =
     (case cellstate (fst (loop vcc s)) of
        e_CellLVC \<Rightarrow> 0
      | e_CellHVC \<Rightarrow> 0
      | e_CellNorm \<Rightarrow>
          if last_cutoff_age (measure_step vcc s) < c_RecentCutOffDuration
          then last_cutoff_age (measure_step vcc s) else c_NoCutoffEvent
      | e_CellInvalid \<Rightarrow> last_cutoff_age (measure_step vcc s))"
  unfolding loop_cellstate unfolding loop_state
  by (simp add: switch_step_def Let_def split: cell.splits)

lemma loop_actions_normal:
  assumes "cellstate (fst (loop vcc s)) = e_CellNorm" and "\<not> shunting (fst (loop vcc s))"
  shows "snd (loop vcc s) =
     [LED_OFF, SHUNT_OFF, delayMicroseconds 200] @ snd (readADC_select s) @
     [LOOP_CLOSE, SHUNT_OFF] @
     led_pulse (last_cutoff_age (measure_step vcc s) < c_RecentCutOffDuration) @
     [deep_sleep 1000]"
proof -
  have "cellstate (measure_step vcc s) = e_CellNorm" "\<not> shunting (measure_step vcc s)"
    using assms by (simp_all add: loop_cellstate loop_shunting)
  then have "snd (switch_step (measure_step vcc s)) =
     [LOOP_CLOSE, SHUNT_OFF] @
     led_pulse (last_cutoff_age (measure_step vcc s) < c_RecentCutOffDuration) @
     [deep_sleep 1000]"
    by (simp add: switch_step_def Let_def)
  then show ?thesis
    by (simp add: loop_actions)
qed

lemma run_loop_Nil: "run_loop [] s = s"
  by simp

lemma run_loop_Cons: "run_loop (vcc # vccs) s = run_loop vccs (fst (loop vcc s))"
  by simp

lemma unat_uint_of_nat: "k < 65536 \<Longrightarrow> unat (word_of_nat k :: uint) = k"
  by (simp add: unat_of_nat)

lemma unat_RecentCutOffDuration: "unat c_RecentCutOffDuration = 1800"
  by (simp add: c_RecentCutOffDuration_def)

lemma unat_NoCutoffEvent: "unat c_NoCutoffEvent = 65535"
  by (simp add: c_NoCutoffEvent_def)

lemma uint_of_nat_less_duration:
  assumes "k < 65536"
  shows "(word_of_nat k :: uint) < c_RecentCutOffDuration \<longleftrightarrow> k < 1800"
  using assms by (simp add: word_less_nat_alt unat_uint_of_nat unat_RecentCutOffDuration)

lemma uint_of_nat_not_sentinel:
  assumes "k < 65535"
  shows "(word_of_nat k :: uint) \<noteq> c_NoCutoffEvent"
proof
  assume "(word_of_nat k :: uint) = c_NoCutoffEvent"
  then have "unat (word_of_nat k :: uint) = unat c_NoCutoffEvent" by simp
  with assms show False by (simp add: unat_uint_of_nat unat_NoCutoffEvent)
qed

lemma recency_after_step:
  assumes "last_cutoff_age s = recency_after k"
    and "cellstate (fst (loop vcc s)) = e_CellNorm"
  shows "last_cutoff_age (fst (loop vcc s)) = recency_after (Suc k)"
proof (cases "k < 1800")
  case True
  then have a: "last_cutoff_age s = word_of_nat k"
    using assms(1) by (simp add: recency_after_def unat_RecentCutOffDuration)
  have "last_cutoff_age s \<noteq> c_NoCutoffEvent"
    unfolding a using True by (intro uint_of_nat_not_sentinel) simp
  then have inc: "last_cutoff_age (measure_step vcc s) = word_of_nat (Suc k)"
    by (simp add: measure_step_last_cutoff_age a)
  have "(word_of_nat (Suc k) :: uint) < c_RecentCutOffDuration \<longleftrightarrow> Suc k < 1800"
    using True by (intro uint_of_nat_less_duration) simp
  then show ?thesis
    using assms(2) unfolding loop_last_cutoff_age inc
    by (simp add: recency_after_def unat_RecentCutOffDuration del: of_nat_Suc)
next
  case False
  then show ?thesis
    using assms
    by (simp add: loop_last_cutoff_age measure_step_last_cutoff_age recency_after_def
      unat_RecentCutOffDuration c_RecentCutOffDuration_def c_NoCutoffEvent_def)
qed

lemma recency_after_run:
  assumes "last_cutoff_age s = recency_after k"
    and "\<forall>st \<in> set (loop_trace vccs s). cellstate st = e_CellNorm"
  shows "last_cutoff_age (run_loop vccs s) = recency_after (k + length vccs)"
  using assms
proof (induction vccs arbitrary: s k)
  case Nil
  then show ?case by (simp add: run_loop_Nil)
next
  case (Cons vcc vccs)
  have "last_cutoff_age (fst (loop vcc s)) = recency_after (Suc k)"
    using Cons.prems by (intro recency_after_step) simp_all
  moreover have "\<forall>st \<in> set (loop_trace vccs (fst (loop vcc s))). cellstate st = e_CellNorm"
    using Cons.prems(2) by simp
  ultimately have "last_cutoff_age (run_loop vccs (fst (loop vcc s)))
      = recency_after (Suc k + length vccs)"
    by (rule Cons.IH)
  then show ?case by (simp add: run_loop_Cons)
qed

lemma recency_after_sentinel_iff:
  "recency_after k = c_NoCutoffEvent \<longleftrightarrow> unat c_RecentCutOffDuration \<le> k"
  using uint_of_nat_not_sentinel [of k]
  by (auto simp add: recency_after_def unat_RecentCutOffDuration)

lemma uint_succ_ge_duration:
  fixes a :: uint
  assumes "c_RecentCutOffDuration \<le> a" and "a \<noteq> c_NoCutoffEvent"
  shows "c_RecentCutOffDuration \<le> a + 1"
proof -
  have "unat a \<noteq> unat c_NoCutoffEvent"
    using assms(2) by (simp add: word_unat_eq_iff)
  moreover have "unat a < 65536"
    using unsigned_less [of a, where ?'a = nat] by simp
  ultimately have "unat a + 1 < 65536"
    by (simp add: unat_NoCutoffEvent)
  then have "unat (a + 1) = unat a + 1"
    by (simp add: unat_word_ariths)
  then show ?thesis
    using assms(1) by (simp add: word_le_nat_alt)
qed

lemma recency_inv_measure_step:
  assumes "recency_inv k (last_cutoff_age s)"
  shows "if Suc k < 1800 then last_cutoff_age (measure_step vcc s) = word_of_nat (Suc k)
         else c_RecentCutOffDuration \<le> last_cutoff_age (measure_step vcc s)"
proof (cases "k < 1800")
  case True
  then have a: "last_cutoff_age s = word_of_nat k"
    using assms by (simp add: recency_inv_def unat_RecentCutOffDuration)
  have "last_cutoff_age s \<noteq> c_NoCutoffEvent"
    unfolding a using True by (intro uint_of_nat_not_sentinel) simp
  then have inc: "last_cutoff_age (measure_step vcc s) = word_of_nat (Suc k)"
    by (simp add: measure_step_last_cutoff_age a)
  have lt: "(word_of_nat (Suc k) :: uint) < c_RecentCutOffDuration \<longleftrightarrow> Suc k < 1800"
    using True by (intro uint_of_nat_less_duration) simp
  show ?thesis
  proof (cases "Suc k < 1800")
    case True
    then show ?thesis using inc by simp
  next
    case False
    then have "\<not> (word_of_nat (Suc k) :: uint) < c_RecentCutOffDuration"
      using lt by simp
    then have "c_RecentCutOffDuration \<le> (word_of_nat (Suc k) :: uint)"
      by (simp only: not_less)
    then show ?thesis using False inc by simp
  qed
next
  case False
  then have "c_RecentCutOffDuration \<le> last_cutoff_age s"
    using assms by (simp add: recency_inv_def unat_RecentCutOffDuration)
  then have "c_RecentCutOffDuration \<le> last_cutoff_age (measure_step vcc s)"
    by (auto simp add: measure_step_last_cutoff_age uint_succ_ge_duration)
  then show ?thesis using False by simp
qed

lemma recency_inv_less:
  assumes "recency_inv k (last_cutoff_age s)"
  shows "last_cutoff_age (measure_step vcc s) < c_RecentCutOffDuration \<longleftrightarrow> Suc k < 1800"
proof (cases "Suc k < 1800")
  case True
  then have "last_cutoff_age (measure_step vcc s) = word_of_nat (Suc k)"
    using recency_inv_measure_step [OF assms, of vcc] by simp
  moreover have "(word_of_nat (Suc k) :: uint) < c_RecentCutOffDuration \<longleftrightarrow> Suc k < 1800"
    using True by (intro uint_of_nat_less_duration) simp
  ultimately show ?thesis by simp
next
  case False
  then have "c_RecentCutOffDuration \<le> last_cutoff_age (measure_step vcc s)"
    using recency_inv_measure_step [OF assms, of vcc] by simp
  then show ?thesis using False by (simp add: not_less)
qed

lemma recency_inv_step:
  assumes "recency_inv k (last_cutoff_age s)"
    and "cellstate (fst (loop vcc s)) \<noteq> e_CellLVC"
    and "cellstate (fst (loop vcc s)) \<noteq> e_CellHVC"
  shows "recency_inv (Suc k) (last_cutoff_age (fst (loop vcc s)))"
proof -
  note m = recency_inv_measure_step [OF assms(1), of vcc]
  note l = recency_inv_less [OF assms(1), of vcc]
  have top: "c_RecentCutOffDuration \<le> c_NoCutoffEvent"
    by (simp add: c_RecentCutOffDuration_def c_NoCutoffEvent_def)
  show ?thesis
  proof (cases "cellstate (fst (loop vcc s))")
    case e_CellInvalid
    then show ?thesis
      using m by (simp add: loop_last_cutoff_age recency_inv_def unat_RecentCutOffDuration)
  next
    case e_CellNorm
    then show ?thesis
      using m l top by (simp add: loop_last_cutoff_age recency_inv_def unat_RecentCutOffDuration)
  next
    case e_CellLVC
    then show ?thesis using assms(2) by simp
  next
    case e_CellHVC
    then show ?thesis using assms(3) by simp
  qed
qed

lemma recency_inv_normal:
  assumes "recency_inv k (last_cutoff_age s)"
    and "cellstate (fst (loop vcc s)) = e_CellNorm"
  shows "last_cutoff_age (fst (loop vcc s)) = recency_after (Suc k)"
  using recency_inv_measure_step [OF assms(1), of vcc] recency_inv_less [OF assms(1), of vcc]
    assms(2)
  by (simp add: loop_last_cutoff_age recency_after_def unat_RecentCutOffDuration)

lemma recency_inv_run:
  assumes "recency_inv k (last_cutoff_age s)"
    and "\<forall>st \<in> set (loop_trace vccs s). cellstate st \<noteq> e_CellLVC \<and> cellstate st \<noteq> e_CellHVC"
  shows "recency_inv (k + length vccs) (last_cutoff_age (run_loop vccs s))"
  using assms
proof (induction vccs arbitrary: s k)
  case Nil
  then show ?case by (simp add: run_loop_Nil)
next
  case (Cons vcc vccs)
  have "recency_inv (Suc k) (last_cutoff_age (fst (loop vcc s)))"
    using Cons.prems by (intro recency_inv_step) simp_all
  moreover have "\<forall>st \<in> set (loop_trace vccs (fst (loop vcc s))).
      cellstate st \<noteq> e_CellLVC \<and> cellstate st \<noteq> e_CellHVC"
    using Cons.prems(2) by simp
  ultimately have "recency_inv (Suc k + length vccs)
      (last_cutoff_age (run_loop vccs (fst (loop vcc s))))"
    by (rule Cons.IH)
  then show ?case by (simp add: run_loop_Cons)
qed

text \<open>The voltage filter: the summation loop, one push, and a full window of pushes.\<close>

lemma fold_sum_take:
  "n \<le> length buf \<Longrightarrow>
   fold (\<lambda>ii sum. sum + buf ! ii) [0..<n] (a :: long) = a + sum_list (take n buf)"
proof (induction n)
  case 0
  then show ?case by simp
next
  case (Suc n)
  then have "take (Suc n) buf = take n buf @ [buf ! n]"
    by (simp add: take_Suc_conv_app_nth)
  with Suc show ?case by (simp add: add.assoc)
qed

lemma moving_average_buffer:
  "avg_buffer (snd (moving_average val s)) = (avg_buffer s)[avg_index s := val]"
  by (simp add: moving_average_def Let_def)

lemma moving_average_index:
  "avg_index s < c_MovingAverageWindow \<Longrightarrow>
   avg_index (snd (moving_average val s)) = (avg_index s + 1) mod c_MovingAverageWindow"
  by (simp add: moving_average_def Let_def c_MovingAverageWindow_def)

lemma moving_average_value:
  "length (avg_buffer s) = c_MovingAverageWindow \<Longrightarrow>
   fst (moving_average val s) =
     long_div (sum_list (avg_buffer (snd (moving_average val s)))) (of_nat c_MovingAverageWindow)"
  by (simp add: moving_average_def Let_def fold_sum_take)

lemma sum_list_word_of_int:
  "sum_list ws = (word_of_int (\<Sum>w\<leftarrow>ws. sint w) :: long)"
  by (induction ws) simp_all

lemma sint_long_in_range:
  assumes "- (2 ^ 31) \<le> k" and "k < 2 ^ 31"
  shows "sint (word_of_int k :: long) = k"
  using assms by (simp add: sint_sbintrunc' signed_take_bit_int_eq_self)

lemma sdiv_five:
  "(k :: int) sdiv 5 = (if 0 \<le> k then k div 5 else - ((- k) div 5))"
  by (simp add: signed_divide_int_def sgn_if)

lemma long_div_mean:
  assumes "- (2 ^ 31) \<le> k" and "k < 2 ^ 31"
  shows "sint (long_div (word_of_int k) (of_nat c_MovingAverageWindow)) = k sdiv 5"
proof -
  have "sint (word_of_int k :: long) = k"
    using assms by (rule sint_long_in_range)
  then have eq: "long_div (word_of_int k) (of_nat c_MovingAverageWindow) = word_of_int (k sdiv 5)"
    by (simp add: long_div_def c_MovingAverageWindow_def)
  have "- (2 ^ 31) \<le> k sdiv 5" "k sdiv 5 < 2 ^ 31"
    using assms unfolding sdiv_five by (simp; linarith)+
  then show ?thesis
    unfolding eq by (rule sint_long_in_range)
qed

lemma sdiv_mult_cancel: "(5 * k) sdiv 5 = (k :: int)"
proof -
  have "- (5 * k) div 5 = - k"
    using nonzero_mult_div_cancel_left [of 5 "- k"] by simp
  then show ?thesis
    by (simp add: sdiv_five)
qed

lemma push_readings_snoc:
  "push_readings (vals @ [val]) rs = moving_average val (snd (push_readings vals rs))"
  by (induction vals arbitrary: rs) simp_all

lemma push_replicate_inv:
  assumes "length (avg_buffer s) = c_MovingAverageWindow"
    and "avg_index s < c_MovingAverageWindow"
  shows "length (avg_buffer (snd (push_readings (replicate k v) (r, s)))) = c_MovingAverageWindow \<and>
         avg_index (snd (push_readings (replicate k v) (r, s)))
           = (avg_index s + k) mod c_MovingAverageWindow \<and>
         (\<forall>j<k. avg_buffer (snd (push_readings (replicate k v) (r, s)))
                   ! ((avg_index s + j) mod c_MovingAverageWindow) = v)"
proof (induction k)
  case 0
  then show ?case using assms by simp
next
  case (Suc k)
  let ?s = "snd (push_readings (replicate k v) (r, s))"
  have step: "push_readings (replicate (Suc k) v) (r, s) = moving_average v ?s"
    using push_readings_snoc [of "replicate k v" v "(r, s)"]
    by (simp add: replicate_append_same)
  have idx: "avg_index ?s < c_MovingAverageWindow"
    using Suc by (simp add: c_MovingAverageWindow_def)
  have len: "length (avg_buffer ?s) = c_MovingAverageWindow"
    using Suc by simp
  have "avg_buffer (snd (moving_average v ?s)) ! ((avg_index s + j) mod c_MovingAverageWindow) = v"
    if "j < Suc k" for j
  proof (cases "(avg_index s + j) mod c_MovingAverageWindow = avg_index ?s")
    case True
    then show ?thesis
      using idx len by (simp add: moving_average_buffer)
  next
    case False
    then have "j \<noteq> k" using Suc by auto
    with that have "j < k" by simp
    then show ?thesis
      using False Suc by (simp add: moving_average_buffer)
  qed
  moreover have "avg_index (snd (moving_average v ?s))
      = (avg_index s + Suc k) mod c_MovingAverageWindow"
    using Suc by (simp add: moving_average_index [OF idx] mod_Suc_eq)
  ultimately show ?case
    unfolding step using len by (simp add: moving_average_buffer)
qed

lemma push_window_full:
  assumes "length (avg_buffer s) = c_MovingAverageWindow"
    and "avg_index s < c_MovingAverageWindow"
  shows "avg_buffer (snd (push_readings (replicate c_MovingAverageWindow v) (r, s)))
         = replicate c_MovingAverageWindow v"
proof (rule nth_equalityI)
  let ?s = "snd (push_readings (replicate c_MovingAverageWindow v) (r, s))"
  note inv = push_replicate_inv [OF assms, of c_MovingAverageWindow v r]
  show "length (avg_buffer ?s) = length (replicate c_MovingAverageWindow v)"
    using inv by simp
  fix m assume "m < length (avg_buffer ?s)"
  then have m: "m < c_MovingAverageWindow" using inv by simp
  define j where "j = (m + c_MovingAverageWindow - avg_index s) mod c_MovingAverageWindow"
  have j: "j < c_MovingAverageWindow"
    by (simp add: j_def c_MovingAverageWindow_def)
  have "(avg_index s + j) mod c_MovingAverageWindow
      = (avg_index s + (m + c_MovingAverageWindow - avg_index s)) mod c_MovingAverageWindow"
    unfolding j_def by (simp add: mod_add_right_eq)
  also have "avg_index s + (m + c_MovingAverageWindow - avg_index s) = m + c_MovingAverageWindow"
    using assms(2) by simp
  also have "(m + c_MovingAverageWindow) mod c_MovingAverageWindow = m"
    using m by simp
  finally have eq: "(avg_index s + j) mod c_MovingAverageWindow = m" .
  have "\<forall>j<c_MovingAverageWindow.
      avg_buffer ?s ! ((avg_index s + j) mod c_MovingAverageWindow) = v"
    using inv by blast
  then have "avg_buffer ?s ! ((avg_index s + j) mod c_MovingAverageWindow) = v"
    using j by blast
  then have "avg_buffer ?s ! m = v"
    unfolding eq .
  then show "avg_buffer ?s ! m = replicate c_MovingAverageWindow v ! m"
    using m by simp
qed

lemma push_window_value:
  assumes "length (avg_buffer s) = c_MovingAverageWindow"
    and "avg_index s < c_MovingAverageWindow"
    and "- (2 ^ 31) \<le> int c_MovingAverageWindow * sint v"
    and "int c_MovingAverageWindow * sint v < 2 ^ 31"
  shows "fst (push_readings (replicate c_MovingAverageWindow v) (r, s)) = v"
proof -
  let ?k = "c_MovingAverageWindow - 1"
  let ?s = "snd (push_readings (replicate ?k v) (r, s))"
  have "replicate (Suc 4) v = replicate 4 v @ [v]"
    by (simp only: replicate_append_same replicate_Suc)
  then have rep: "replicate c_MovingAverageWindow v = replicate ?k v @ [v]"
    by (simp add: c_MovingAverageWindow_def)
  have step: "push_readings (replicate c_MovingAverageWindow v) (r, s) = moving_average v ?s"
    unfolding rep by (rule push_readings_snoc)
  have len: "length (avg_buffer ?s) = c_MovingAverageWindow"
    using push_replicate_inv [OF assms(1,2), of ?k v r] by simp
  have buf: "avg_buffer (snd (moving_average v ?s)) = replicate c_MovingAverageWindow v"
    using push_window_full [OF assms(1,2), of v r] unfolding step .
  have "fst (moving_average v ?s)
      = long_div (sum_list (replicate c_MovingAverageWindow v)) (of_nat c_MovingAverageWindow)"
    using moving_average_value [OF len, of v] unfolding buf .
  also have "sum_list (replicate c_MovingAverageWindow v) = word_of_int (5 * sint v)"
    by (simp add: sum_list_word_of_int c_MovingAverageWindow_def sum_list_replicate)
  also have "long_div (word_of_int (5 * sint v)) (of_nat c_MovingAverageWindow)
      = word_of_int ((5 * sint v) sdiv 5)"
  proof -
    have "sint (word_of_int (5 * sint v) :: long) = 5 * sint v"
      using assms(3,4) by (intro sint_long_in_range) (simp_all add: c_MovingAverageWindow_def)
    then show ?thesis
      by (simp add: long_div_def c_MovingAverageWindow_def)
  qed
  also have "\<dots> = v"
    by (simp add: sdiv_mult_cancel)
  finally show ?thesis
    unfolding step .
qed

text \<open>Every pass of the main loop keeps the window size and keeps the cursor inside it.\<close>

lemma measure_step_window:
  "avg_buffer (measure_step vcc s) = (avg_buffer s)[avg_index s := vcc]"
  "avg_index (measure_step vcc s) = ((avg_index s + 1) mod 256) mod c_MovingAverageWindow"
  by (simp_all add: measure_step_unfold determine_cellstate_frame readADC_select_frame
      moving_average_def Let_def)

lemma switch_step_window:
  "avg_buffer (fst (switch_step s)) = avg_buffer s"
  "avg_index (fst (switch_step s)) = avg_index s"
  by (simp_all add: switch_step_def Let_def split: cell.splits)

lemma loop_window:
  assumes "length (avg_buffer s) = c_MovingAverageWindow"
    and "avg_index s < c_MovingAverageWindow"
  shows "length (avg_buffer (fst (loop vcc s))) = c_MovingAverageWindow \<and>
         avg_index (fst (loop vcc s)) < c_MovingAverageWindow"
proof -
  have "fst (loop vcc s) = fst (switch_step (measure_step vcc s))"
    by (rule loop_state)
  then show ?thesis
    using assms
    by (simp add: switch_step_window measure_step_window c_MovingAverageWindow_def)
qed

lemma setup_state_window:
  "length (avg_buffer setup_state) = c_MovingAverageWindow \<and>
   avg_index setup_state < c_MovingAverageWindow"
  by (simp add: setup_state_def c_MovingAverageWindow_def)

text \<open>Constant nominal readings keep a module at rest.\<close>

lemma moving_average_steady:
  assumes "avg_buffer s = replicate c_MovingAverageWindow 3200"
    and "avg_index s < c_MovingAverageWindow"
  shows "fst (moving_average 3200 s) = 3200"
    and "avg_buffer (snd (moving_average 3200 s)) = replicate c_MovingAverageWindow 3200"
    and "avg_index (snd (moving_average 3200 s)) < c_MovingAverageWindow"
proof -
  have len: "length (avg_buffer s) = c_MovingAverageWindow"
    using assms(1) by simp
  show buf: "avg_buffer (snd (moving_average 3200 s)) = replicate c_MovingAverageWindow 3200"
    unfolding moving_average_buffer assms(1)
    using assms(2) by (intro nth_equalityI) (simp_all add: nth_list_update)
  have "sum_list (replicate c_MovingAverageWindow (3200 :: long)) = 16000"
    by (simp add: sum_list_replicate c_MovingAverageWindow_def)
  then show "fst (moving_average 3200 s) = 3200"
    unfolding moving_average_value [OF len] buf
    by (simp add: long_div_def c_MovingAverageWindow_def sdiv_five)
  show "avg_index (snd (moving_average 3200 s)) < c_MovingAverageWindow"
    unfolding moving_average_index [OF assms(2)] by (simp add: c_MovingAverageWindow_def)
qed

lemma steady_normal_loop:
  assumes "steady_normal s"
  shows "steady_normal (fst (loop 3200 s))"
proof -
  let ?s0 = "fst (readADC_select (if last_cutoff_age s \<noteq> c_NoCutoffEvent
             then s\<lparr>last_cutoff_age := last_cutoff_age s + 1\<rparr> else s))"
  have s0: "avg_buffer ?s0 = replicate c_MovingAverageWindow 3200"
    "avg_index ?s0 < c_MovingAverageWindow"
    using assms by (simp_all add: steady_normal_def readADC_select_def)
  note ma = moving_average_steady [OF s0]
  have rest: "cellstate (snd (moving_average 3200 ?s0)) = e_CellNorm"
    "cellstate_pending (snd (moving_average 3200 ?s0)) = e_CellNorm"
    "\<not> shunting (snd (moving_average 3200 ?s0))"
    "\<not> shunting_pending (snd (moving_average 3200 ?s0))"
    using assms by (simp_all add: steady_normal_def moving_average_def readADC_select_def Let_def)
  have cn: "cellstate_new 3200 e_CellNorm = e_CellNorm"
    by (simp add: cellstate_new_def Let_def thresholds word_sle_eq word_sless_alt)
  have sn: "shunting_new 3200 False = False"
    by (simp add: shunting_new_def Let_def thresholds word_sle_eq word_sless_alt)
  have "steady_normal (measure_step 3200 s)"
    using ma rest cn sn
    by (simp add: measure_step_unfold determine_cellstate_def Let_def steady_normal_def)
  then show ?thesis
    by (simp add: loop_state switch_step_frame switch_step_window steady_normal_def)
qed

lemma steady_normal_run:
  assumes "steady_normal s"
  shows "steady_normal (run_loop (replicate n 3200) s) \<and>
         (\<forall>st \<in> set (loop_trace (replicate n 3200) s). steady_normal st)"
  using assms
proof (induction n arbitrary: s)
  case 0
  then show ?case by simp
next
  case (Suc n)
  have "steady_normal (fst (loop 3200 s))"
    using Suc.prems by (rule steady_normal_loop)
  then show ?case
    using Suc.IH [of "fst (loop 3200 s)"] by simp
qed

lemma loop_trace_append:
  "loop_trace (vccs @ wccs) s = loop_trace vccs s @ loop_trace wccs (run_loop vccs s)"
  by (induction vccs arbitrary: s) simp_all

lemma run_loop_append:
  "run_loop (vccs @ wccs) s = run_loop wccs (run_loop vccs s)"
  by (induction vccs arbitrary: s) simp_all

lemma power_on_steady:
  "steady_normal (run_loop (replicate (6 + m) 3200) setup_state) \<and>
   (\<forall>st \<in> set (loop_trace (replicate (6 + m) 3200) setup_state).
      cellstate st \<noteq> e_CellLVC \<and> cellstate st \<noteq> e_CellHVC)"
proof -
  let ?s6 = "run_loop (replicate 6 3200) setup_state"
  have first: "\<forall>st \<in> set (loop_trace (replicate 6 3200) setup_state).
      cellstate st \<noteq> e_CellLVC \<and> cellstate st \<noteq> e_CellHVC"
    by code_simp
  have s6: "steady_normal ?s6"
    by code_simp
  have rest: "steady_normal (run_loop (replicate m 3200) ?s6)"
    "\<forall>st \<in> set (loop_trace (replicate m 3200) ?s6). steady_normal st"
    using steady_normal_run [OF s6, of m] by simp_all
  have split: "replicate (6 + m) (3200 :: long) = replicate 6 3200 @ replicate m 3200"
    by (rule replicate_add)
  show ?thesis
    unfolding split run_loop_append loop_trace_append
    using first rest by (auto simp add: steady_normal_def)
qed

text \<open>The first pass after power-on, the multiplexer register, and the calibrated reading.\<close>


lemma run_loop_ADMUX:
  "vccs \<noteq> [] \<Longrightarrow> ADMUX (run_loop vccs s) = ADMUX_VCCWRT1V1"
proof (induction vccs arbitrary: s)
  case Nil
  then show ?case by simp
next
  case (Cons vcc vccs)
  show ?case
  proof (cases "vccs = []")
    case True
    then show ?thesis by (simp add: loop_ADMUX)
  next
    case False
    then show ?thesis using Cons.IH by simp
  qed
qed

lemma determine_cellstate_cell:
  "cellstate (determine_cellstate s) =
     (if cellstate_pending s = cellstate_new (cellvoltage s) (cellstate s)
         \<and> c_StateSettleTime < cellstate_pending_age s
      then cellstate_new (cellvoltage s) (cellstate s) else cellstate s)"
  using cellstate_new_not_invalid [of "cellvoltage s" "cellstate s"]
  by (simp add: determine_cellstate_def Let_def)

lemma determine_cellstate_pending_invalid:
  assumes "cellstate_pending s = e_CellInvalid"
  shows "cellstate (determine_cellstate s) = cellstate s"
  using assms cellstate_new_not_invalid [of "cellvoltage s" "cellstate s"]
  by (auto simp add: determine_cellstate_cell)

lemma first_pass_invalid:
  "cellstate (fst (loop vcc setup_state)) = e_CellInvalid"
proof -
  have "cellstate setup_state = e_CellInvalid" "cellstate_pending setup_state = e_CellInvalid"
    by (simp_all add: setup_state_def)
  then show ?thesis
    unfolding loop_cellstate measure_step_unfold
    by (subst determine_cellstate_pending_invalid)
       (simp_all add: moving_average_frame readADC_select_frame)
qed

lemma power_on_pass:
  assumes "\<forall>st \<in> set (loop_trace vccs setup_state).
             cellstate st \<noteq> e_CellLVC \<and> cellstate st \<noteq> e_CellHVC"
    and "cellstate (fst (loop vcc (run_loop vccs setup_state))) = e_CellNorm"
  shows "last_cutoff_age (fst (loop vcc (run_loop vccs setup_state))) =
       (if length vccs + 1 < unat c_RecentCutOffDuration then word_of_nat (length vccs + 1)
        else c_NoCutoffEvent)"
    and "\<not> shunting (fst (loop vcc (run_loop vccs setup_state))) \<Longrightarrow>
        snd (loop vcc (run_loop vccs setup_state)) =
          [LED_OFF, SHUNT_OFF, delayMicroseconds 200, LOOP_CLOSE, SHUNT_OFF] @
          (if length vccs + 1 < unat c_RecentCutOffDuration
           then [LED_OFF, delay 20, LED_ON] else [LED_ON, delay 20, LED_OFF]) @
          [deep_sleep 1000]"
proof -
  let ?s = "run_loop vccs setup_state"
  have zero: "last_cutoff_age setup_state = 0"
    by (simp add: setup_state_def)
  have "recency_inv 0 (last_cutoff_age setup_state)"
    using zero by (simp add: recency_inv_def unat_RecentCutOffDuration)
  then have "recency_inv (0 + length vccs) (last_cutoff_age ?s)"
    using assms(1) by (rule recency_inv_run)
  then have inv: "recency_inv (length vccs) (last_cutoff_age ?s)"
    by simp
  have "last_cutoff_age (fst (loop vcc ?s)) = recency_after (Suc (length vccs))"
    using inv assms(2) by (rule recency_inv_normal)
  then show "last_cutoff_age (fst (loop vcc ?s)) =
       (if length vccs + 1 < unat c_RecentCutOffDuration then word_of_nat (length vccs + 1)
        else c_NoCutoffEvent)"
    by (simp add: recency_after_def del: of_nat_Suc)
  have less: "last_cutoff_age (measure_step vcc ?s) < c_RecentCutOffDuration
      \<longleftrightarrow> Suc (length vccs) < 1800"
    using inv by (rule recency_inv_less)
  have "vccs \<noteq> []"
    using assms(2) first_pass_invalid [of vcc] by auto
  then have "ADMUX ?s = ADMUX_VCCWRT1V1"
    by (rule run_loop_ADMUX)
  then have sel: "snd (readADC_select ?s) = []"
    by (simp add: readADC_select_actions)
  show "snd (loop vcc ?s) =
          [LED_OFF, SHUNT_OFF, delayMicroseconds 200, LOOP_CLOSE, SHUNT_OFF] @
          (if length vccs + 1 < unat c_RecentCutOffDuration
           then [LED_OFF, delay 20, LED_ON] else [LED_ON, delay 20, LED_OFF]) @
          [deep_sleep 1000]"
    if "\<not> shunting (fst (loop vcc ?s))"
    using loop_actions_normal [OF assms(2) that] less sel
    by (simp add: led_pulse_def unat_RecentCutOffDuration)
qed

lemma steady_normal_cellstates:
  assumes "steady_normal s"
  shows "map cellstate (loop_trace (replicate n 3200) s) = replicate n e_CellNorm"
  using assms
proof (induction n arbitrary: s)
  case 0
  then show ?case by simp
next
  case (Suc n)
  have st: "steady_normal (fst (loop 3200 s))"
    using Suc.prems by (rule steady_normal_loop)
  then have "cellstate (fst (loop 3200 s)) = e_CellNorm"
    by (simp add: steady_normal_def)
  then show ?case
    using Suc.IH [OF st] by simp
qed

lemma count_list_replicate_same: "count_list (replicate n x) x = n"
  by (induction n) simp_all

lemma calibration_factor_custom_value: "calibration_factor_custom = 1126400"
  by (simp add: calibration_factor_custom_def calibration_voltage_software_def
      calibration_voltage_metered_def)

lemma readVcc_range:
  assumes "1 \<le>s adc" and "adc \<le>s 1023"
  shows "0 \<le> sint (readVcc calibration_factor_custom adc) \<and>
         sint (readVcc calibration_factor_custom adc) \<le> 1126400"
proof -
  have k: "1 \<le> sint adc" "sint adc \<le> 1023"
    using assms by (simp_all add: word_sle_eq)
  have cf: "sint calibration_factor_custom = 1126400"
    by (simp add: calibration_factor_custom_value)
  have q: "(1126400 :: int) sdiv sint adc = 1126400 div sint adc"
    using k by (simp add: signed_divide_int_def sgn_if)
  have lo: "0 \<le> (1126400 :: int) div sint adc"
    using k by (simp add: pos_imp_zdiv_nonneg_iff)
  have hi: "(1126400 :: int) div sint adc \<le> 1126400"
    using zdiv_mono2 [of 1126400 1 "sint adc"] k by simp
  have "sint (word_of_int (1126400 div sint adc) :: long) = 1126400 div sint adc"
    using lo hi by (intro sint_long_in_range) simp_all
  then show ?thesis
    using lo hi by (simp add: readVcc_def long_div_def cf q)
qed

section \<open>Classifier\<close>

text \<open>
  C1.  For every filtered voltage and every current cell state, the proposal computed by
  \<open>determine_cellstate\<close> is the result of evaluating the seven rules in order, later rules
  overriding earlier ones.  A voltage at or below the low-voltage engage threshold
  always yields the proposal \<open>e_CellLVC\<close>, whatever the earlier rules proposed; with the
  configured thresholds the two cutoff conditions never hold together.
\<close>

theorem classifier_rule_order:
  "cellstate_new v cs = spec_classify v cs \<and>
   (v \<le>s c_LVoltage_engage \<longrightarrow> cellstate_new v cs = e_CellLVC) \<and>
   \<not> (c_HVoltage_engage \<le>s v \<and> v \<le>s c_LVoltage_engage)"
proof -
  have "cellstate_new v cs = spec_classify v cs"
    by (simp add: cellstate_new_def spec_classify_def spec_rules_def Let_def)
  moreover have "\<not> (c_HVoltage_engage \<le>s v \<and> v \<le>s c_LVoltage_engage)"
    by (simp add: thresholds word_sle_eq)
  moreover have "v \<le>s c_LVoltage_engage \<longrightarrow> cellstate_new v cs = e_CellLVC"
    by (simp add: cellstate_new_low)
  ultimately show ?thesis
    by blast
qed

theorem classifier_rule_order_witness:
  "(2900 :: long) \<le>s c_LVoltage_engage \<and>
   cellstate_new 2900 e_CellHVC = e_CellLVC \<and>
   spec_classify 2900 e_CellHVC = e_CellLVC"
proof -
  have le: "(2900 :: long) \<le>s c_LVoltage_engage"
    by (simp add: c_LVoltage_engage_def)
  with classifier_rule_order [of 2900 e_CellHVC]
  have "cellstate_new 2900 e_CellHVC = e_CellLVC"
    and "cellstate_new 2900 e_CellHVC = spec_classify 2900 e_CellHVC"
    by blast+
  with le show ?thesis
    by metis
qed

text \<open>
  C9.  The proposal is never \<open>e_CellInvalid\<close>: from \<open>e_CellInvalid\<close> the bootstrap rule and
  the two cutoff rules cover every voltage, and from any other state every rule proposes
  a state other than \<open>e_CellInvalid\<close>.  Hence the early \<open>return\<close> of \<open>determine_cellstate\<close>
  is never taken (the pending state always ends up equal to the proposal), and a
  committed state other than \<open>e_CellInvalid\<close> never becomes \<open>e_CellInvalid\<close> again.
\<close>

theorem proposal_never_invalid:
  "cellstate_new v cs \<noteq> e_CellInvalid \<and>
   ((c_LVoltage_engage <s v \<and> v <s c_HVoltage_engage) \<or> c_HVoltage_engage \<le>s v
      \<or> v \<le>s c_LVoltage_engage) \<and>
   cellstate_pending (determine_cellstate s) = cellstate_new (cellvoltage s) (cellstate s) \<and>
   (cellstate s \<noteq> e_CellInvalid \<longrightarrow> cellstate (determine_cellstate s) \<noteq> e_CellInvalid)"
proof -
  have cover: "(c_LVoltage_engage <s v \<and> v <s c_HVoltage_engage) \<or> c_HVoltage_engage \<le>s v
      \<or> v \<le>s c_LVoltage_engage"
    by (auto simp add: word_sle_eq word_sless_alt)
  have ni: "cellstate_new (cellvoltage s) (cellstate s) \<noteq> e_CellInvalid"
    by (rule cellstate_new_not_invalid)
  have pend: "cellstate_pending (determine_cellstate s)
      = cellstate_new (cellvoltage s) (cellstate s)"
    using ni by (simp add: determine_cellstate_def Let_def)
  have keep: "cellstate s \<noteq> e_CellInvalid \<longrightarrow> cellstate (determine_cellstate s) \<noteq> e_CellInvalid"
    using ni by (simp add: determine_cellstate_def Let_def)
  show ?thesis
    using cover pend keep cellstate_new_not_invalid [of v cs] by blast
qed

theorem proposal_never_invalid_witness:
  "cellstate (setup_state\<lparr>cellstate := e_CellNorm\<rparr>) \<noteq> e_CellInvalid \<and>
   cellstate (determine_cellstate (setup_state\<lparr>cellstate := e_CellNorm\<rparr>)) \<noteq> e_CellInvalid \<and>
   cellstate_new 3200 e_CellInvalid \<noteq> e_CellInvalid"
  using proposal_never_invalid [of 3200 e_CellInvalid "setup_state\<lparr>cellstate := e_CellNorm\<rparr>"]
  by simp

section \<open>Debounced cell state\<close>

text \<open>
  C4.  While the committed state is \<open>e_CellHVC\<close> and the filtered voltage is held exactly at
  the high-voltage disengage threshold, for any number of ticks, the proposal stays
  \<open>e_CellHVC\<close> (never \<open>e_CellNorm\<close>) and the committed state stays \<open>e_CellHVC\<close>.  From
  \<open>e_CellHVC\<close> the proposal \<open>e_CellNorm\<close> is made only for a voltage strictly below that
  threshold.
\<close>

theorem hvc_held_at_disengage:
  assumes "cellstate s = e_CellHVC"
  shows "cellstate (run_ticks (replicate n c_HVoltage_disengage) s) = e_CellHVC \<and>
         cellstate_new c_HVoltage_disengage
           (cellstate (run_ticks (replicate n c_HVoltage_disengage) s)) = e_CellHVC \<and>
         (cellstate_new v e_CellHVC = e_CellNorm \<longrightarrow> v <s c_HVoltage_disengage)"
proof -
  have "cellstate (run_ticks (replicate n c_HVoltage_disengage) s) = e_CellHVC"
    using assms by (rule run_ticks_keep) (simp add: cellstate_new_hvc_at_disengage)
  then show ?thesis
    by (simp add: cellstate_new_hvc_at_disengage cellstate_new_hvc_norm_iff)
qed

theorem hvc_held_at_disengage_witness:
  "cellstate (setup_state\<lparr>cellstate := e_CellHVC\<rparr>) = e_CellHVC \<and>
   cellstate (run_ticks (replicate 7 c_HVoltage_disengage)
      (setup_state\<lparr>cellstate := e_CellHVC\<rparr>)) = e_CellHVC \<and>
   cellstate_new 3000 e_CellHVC = e_CellNorm \<and> (3000 :: long) <s c_HVoltage_disengage"
proof -
  have "cellstate_new 3000 e_CellHVC = e_CellNorm"
    by (simp add: cellstate_new_def Let_def thresholds word_sle_eq word_sless_alt)
  then show ?thesis
    using hvc_held_at_disengage [of "setup_state\<lparr>cellstate := e_CellHVC\<rparr>" 7 3000]
    by simp
qed

text \<open>
  C7.  From committed and pending state both \<open>e_CellNorm\<close>, one tick at or above the
  high-voltage engage threshold only sets the pending state to \<open>e_CellHVC\<close> with age 0;
  the next tick, strictly inside the safe band, replaces the pending state by
  \<open>e_CellNorm\<close> with age 0.  The committed state is \<open>e_CellNorm\<close> after both ticks and
  stays so while the voltage remains inside the safe band: \<open>e_CellHVC\<close> is not committed.
\<close>

theorem single_spike_not_committed:
  assumes "cellstate s = e_CellNorm" and "cellstate_pending s = e_CellNorm"
    and "c_HVoltage_engage \<le>s v1"
    and "c_LVoltage_disengage <s v2 \<and> v2 <s c_HVoltage_disengage"
    and "\<forall>v \<in> set vs. c_LVoltage_disengage <s v \<and> v <s c_HVoltage_disengage"
  shows "cellstate (tick v1 s) = e_CellNorm \<and>
         cellstate_pending (tick v1 s) = e_CellHVC \<and>
         cellstate_pending_age (tick v1 s) = 0 \<and>
         cellstate (tick v2 (tick v1 s)) = e_CellNorm \<and>
         cellstate_pending (tick v2 (tick v1 s)) = e_CellNorm \<and>
         cellstate_pending_age (tick v2 (tick v1 s)) = 0 \<and>
         cellstate (run_ticks (v1 # v2 # vs) s) = e_CellNorm"
proof -
  have p1: "cellstate_new v1 e_CellNorm = e_CellHVC"
    using assms(3) by (rule cellstate_new_high)
  have p2: "cellstate_new v2 e_CellNorm = e_CellNorm"
    using assms(4) by (simp add: cellstate_new_band)
  have t1: "cellstate (tick v1 s) = e_CellNorm" "cellstate_pending (tick v1 s) = e_CellHVC"
    "cellstate_pending_age (tick v1 s) = 0"
    using assms(1,2) p1 by (simp_all add: tick_cell)
  have t2: "cellstate (tick v2 (tick v1 s)) = e_CellNorm"
    "cellstate_pending (tick v2 (tick v1 s)) = e_CellNorm"
    "cellstate_pending_age (tick v2 (tick v1 s)) = 0"
    using t1 p2 by (simp_all add: tick_cell)
  have "cellstate (run_ticks vs (tick v2 (tick v1 s))) = e_CellNorm"
    using t2(1) assms(5) by (intro run_ticks_keep) (simp_all add: cellstate_new_band)
  then show ?thesis
    using t1 t2 by (simp add: run_ticks_Cons)
qed

theorem single_spike_not_committed_witness:
  "cellstate_pending (tick 3601 (setup_state\<lparr>cellstate := e_CellNorm, cellstate_pending := e_CellNorm\<rparr>)) = e_CellHVC \<and>
   cellstate (run_ticks [3601, 3300, 3310, 3320]
      (setup_state\<lparr>cellstate := e_CellNorm, cellstate_pending := e_CellNorm\<rparr>)) = e_CellNorm"
  using single_spike_not_committed [of "setup_state\<lparr>cellstate := e_CellNorm, cellstate_pending := e_CellNorm\<rparr>"
      3601 3300 "[3310, 3320]"]
  by (simp add: thresholds word_sle_eq word_sless_alt)

text \<open>
  C2.  The claim: from every start state, \<open>c_StateSettleTime + 1\<close> consecutive ticks
  strictly inside the safe band commit \<open>e_CellNorm\<close>, and as many ticks at or above the
  high-voltage engage threshold commit \<open>e_CellHVC\<close>.  The comment on \<open>c_StateSettleTime\<close>
  calls it the number of consecutive measurements a new state needs to be stable before
  it is committed.  The code does not do that: after four such ticks a freshly started
  module is still \<open>e_CellInvalid\<close>, in the safe band as well as above the high-voltage
  engage threshold, and a module in \<open>e_CellLVC\<close> whose pending state \<open>e_CellLVC\<close> has
  settled is still \<open>e_CellLVC\<close> after four ticks inside the safe band.
\<close>

theorem debounce_settle_plus_one_not_committed:
  "length [3200, 3200, 3200, 3200 :: long] = unat c_StateSettleTime + 1 \<and>
   c_LVoltage_disengage <s 3200 \<and> 3200 <s c_HVoltage_disengage \<and>
   cellstate (run_ticks [3200, 3200, 3200, 3200] setup_state) = e_CellInvalid \<and>
   cellstate (run_ticks [3200, 3200, 3200, 3200]
     (setup_state\<lparr>cellstate := e_CellLVC, cellstate_pending := e_CellLVC,
        cellstate_pending_age := 4\<rparr>)) = e_CellLVC \<and>
   c_HVoltage_engage \<le>s 3700 \<and>
   cellstate (run_ticks [3700, 3700, 3700, 3700] setup_state) = e_CellInvalid"
  by code_simp

text \<open>
  What the code does instead.  The guard of the debounce is
  \<open>cellstate_pending_age > c_StateSettleTime\<close>, and replacing the pending state,
  raising its age and committing take separate ticks: the first tick may only replace
  the pending state, four more raise its age to 4, and the commit happens on the tick
  after that.  So six ticks of one proposal always commit it, and five do not from a
  fresh start.
\<close>

lemma debounce_converges:
  assumes "unat c_StateSettleTime + 3 \<le> length vs"
  shows "((\<forall>v \<in> set vs. c_LVoltage_disengage <s v \<and> v <s c_HVoltage_disengage)
            \<longrightarrow> cellstate (run_ticks vs s) = e_CellNorm) \<and>
         ((\<forall>v \<in> set vs. c_HVoltage_engage \<le>s v)
            \<longrightarrow> cellstate (run_ticks vs s) = e_CellHVC)"
proof -
  have len: "6 \<le> length vs"
    using assms by (simp add: c_StateSettleTime_def)
  show ?thesis
  proof (intro conjI impI)
    assume "\<forall>v \<in> set vs. c_LVoltage_disengage <s v \<and> v <s c_HVoltage_disengage"
    then have "\<forall>v \<in> set vs. \<forall>cs. cellstate_new v cs = e_CellNorm"
      by (simp add: cellstate_new_band)
    then show "cellstate (run_ticks vs s) = e_CellNorm"
      using len by (rule run_ticks_commit)
  next
    assume "\<forall>v \<in> set vs. c_HVoltage_engage \<le>s v"
    then have "\<forall>v \<in> set vs. \<forall>cs. cellstate_new v cs = e_CellHVC"
      by (simp add: cellstate_new_high)
    then show "cellstate (run_ticks vs s) = e_CellHVC"
      using len by (rule run_ticks_commit)
  qed
qed

lemma debounce_settle_plus_two_insufficient:
  "cellstate (run_ticks [3200, 3200, 3200, 3200, 3200] setup_state) = e_CellInvalid \<and>
   cellstate (run_ticks [3200, 3200, 3200, 3200, 3200, 3200] setup_state) = e_CellNorm"
  by code_simp

section \<open>Shunt controller\<close>

text \<open>
  C6.  The voltage one millivolt above the shunt engage threshold lies below the
  high-voltage disengage threshold.  From committed state \<open>e_CellNorm\<close> with shunting off,
  holding the filtered voltage there for at least \<open>c_StateSettleTime + 3\<close> ticks turns
  shunting on, and after any number \<open>k\<close> of these ticks the committed cell state is
  \<open>e_CellNorm\<close>.
\<close>

theorem shunt_engages_while_normal:
  assumes "cellstate s = e_CellNorm" and "\<not> shunting s"
    and "unat c_StateSettleTime + 3 \<le> n"
  shows "c_ShuntVoltage_engage + 1 <s c_HVoltage_disengage \<and>
         shunting (run_ticks (replicate n (c_ShuntVoltage_engage + 1)) s) \<and>
         cellstate (run_ticks (replicate k (c_ShuntVoltage_engage + 1)) s) = e_CellNorm"
proof -
  have below: "c_ShuntVoltage_engage + 1 <s c_HVoltage_disengage"
    by (simp add: thresholds word_sless_alt)
  have "c_LVoltage_disengage <s c_ShuntVoltage_engage + 1"
    by (simp add: thresholds word_sless_alt)
  then have "cellstate_new (c_ShuntVoltage_engage + 1) e_CellNorm = e_CellNorm"
    using below by (rule cellstate_new_band)
  with assms(1)
  have cell: "cellstate (run_ticks (replicate k (c_ShuntVoltage_engage + 1)) s) = e_CellNorm"
    by (intro run_ticks_keep) simp_all
  have "6 \<le> length (replicate n (c_ShuntVoltage_engage + 1))"
    using assms(3) by (simp add: c_StateSettleTime_def)
  then have "shunting (run_ticks (replicate n (c_ShuntVoltage_engage + 1)) s) = True"
    by (intro shunt_commit) (simp_all add: shunting_new_above_engage)
  with below cell show ?thesis by simp
qed

theorem shunt_engages_while_normal_witness:
  "shunting (run_ticks (replicate 6 (c_ShuntVoltage_engage + 1))
      (setup_state\<lparr>cellstate := e_CellNorm\<rparr>)) \<and>
   cellstate (run_ticks (replicate 4 (c_ShuntVoltage_engage + 1))
      (setup_state\<lparr>cellstate := e_CellNorm\<rparr>)) = e_CellNorm"
  using shunt_engages_while_normal [of "setup_state\<lparr>cellstate := e_CellNorm\<rparr>" 6 4]
  by (simp add: setup_state_def c_StateSettleTime_def)

section \<open>Cutoff recency counter\<close>

text \<open>
  C5.  On a pass that ends in committed state \<open>e_CellLVC\<close> or \<open>e_CellHVC\<close> the recency
  counter is reset to 0.  On every other pass it is incremented unless it already holds
  the sentinel \<open>c_NoCutoffEvent\<close>; in state \<open>e_CellNorm\<close> the incremented value is then
  pinned to the sentinel as soon as it is no longer below \<open>c_RecentCutOffDuration\<close>.
  Starting from counter 0 (the end of the last cutoff pass), after \<open>length vccs\<close> further
  passes that all end in committed state \<open>e_CellNorm\<close> the counter equals the number of
  passes while that is below \<open>c_RecentCutOffDuration\<close>, and is the sentinel from exactly
  \<open>c_RecentCutOffDuration\<close> passes on, not before.
\<close>

theorem recency_counter:
  "(cellstate (fst (loop vcc s)) = e_CellLVC \<or> cellstate (fst (loop vcc s)) = e_CellHVC
      \<longrightarrow> last_cutoff_age (fst (loop vcc s)) = 0) \<and>
   (cellstate (fst (loop vcc s)) = e_CellInvalid
      \<longrightarrow> last_cutoff_age (fst (loop vcc s)) =
          (if last_cutoff_age s = c_NoCutoffEvent then c_NoCutoffEvent
           else last_cutoff_age s + 1)) \<and>
   (cellstate (fst (loop vcc s)) = e_CellNorm
      \<longrightarrow> last_cutoff_age (fst (loop vcc s)) =
          (if last_cutoff_age s \<noteq> c_NoCutoffEvent
              \<and> last_cutoff_age s + 1 < c_RecentCutOffDuration
           then last_cutoff_age s + 1 else c_NoCutoffEvent)) \<and>
   (last_cutoff_age s = 0 \<and> (\<forall>st \<in> set (loop_trace vccs s). cellstate st = e_CellNorm)
      \<longrightarrow> last_cutoff_age (run_loop vccs s) =
            (if length vccs < unat c_RecentCutOffDuration then word_of_nat (length vccs)
             else c_NoCutoffEvent)
          \<and> (last_cutoff_age (run_loop vccs s) = c_NoCutoffEvent
               \<longleftrightarrow> unat c_RecentCutOffDuration \<le> length vccs))"
proof -
  have cut: "cellstate (fst (loop vcc s)) = e_CellLVC \<or> cellstate (fst (loop vcc s)) = e_CellHVC
      \<longrightarrow> last_cutoff_age (fst (loop vcc s)) = 0"
    by (auto simp add: loop_last_cutoff_age)
  have inv: "cellstate (fst (loop vcc s)) = e_CellInvalid
      \<longrightarrow> last_cutoff_age (fst (loop vcc s)) =
          (if last_cutoff_age s = c_NoCutoffEvent then c_NoCutoffEvent
           else last_cutoff_age s + 1)"
    by (simp add: loop_last_cutoff_age measure_step_last_cutoff_age)
  have top: "\<not> c_NoCutoffEvent < c_RecentCutOffDuration"
    by (simp add: c_RecentCutOffDuration_def c_NoCutoffEvent_def)
  have norm: "cellstate (fst (loop vcc s)) = e_CellNorm
      \<longrightarrow> last_cutoff_age (fst (loop vcc s)) =
          (if last_cutoff_age s \<noteq> c_NoCutoffEvent
              \<and> last_cutoff_age s + 1 < c_RecentCutOffDuration
           then last_cutoff_age s + 1 else c_NoCutoffEvent)"
    using top by (simp add: loop_last_cutoff_age measure_step_last_cutoff_age)
  have run: "last_cutoff_age (run_loop vccs s) =
            (if length vccs < unat c_RecentCutOffDuration then word_of_nat (length vccs)
             else c_NoCutoffEvent)
          \<and> (last_cutoff_age (run_loop vccs s) = c_NoCutoffEvent
               \<longleftrightarrow> unat c_RecentCutOffDuration \<le> length vccs)"
    if "last_cutoff_age s = 0" and "\<forall>st \<in> set (loop_trace vccs s). cellstate st = e_CellNorm"
  proof -
    have "last_cutoff_age s = recency_after 0"
      using that(1) by (simp add: recency_after_def unat_RecentCutOffDuration)
    then have "last_cutoff_age (run_loop vccs s) = recency_after (0 + length vccs)"
      using that(2) by (rule recency_after_run)
    then have eq: "last_cutoff_age (run_loop vccs s) = recency_after (length vccs)"
      by simp
    show ?thesis
      unfolding eq recency_after_sentinel_iff by (simp add: recency_after_def)
  qed
  from cut inv norm run show ?thesis by blast
qed

theorem recency_counter_witness:
  "last_cutoff_age (setup_state\<lparr>cellstate := e_CellNorm, cellstate_pending := e_CellNorm\<rparr>) = 0 \<and>
   cellstate (fst (loop 3200
     (setup_state\<lparr>cellstate := e_CellNorm, cellstate_pending := e_CellNorm\<rparr>))) = e_CellNorm \<and>
   last_cutoff_age (fst (loop 3200
     (setup_state\<lparr>cellstate := e_CellNorm, cellstate_pending := e_CellNorm\<rparr>))) = 1 \<and>
   last_cutoff_age (run_loop (replicate 1799 3200)
     (setup_state\<lparr>cellstate := e_CellNorm, cellstate_pending := e_CellNorm\<rparr>)) = 1799 \<and>
   last_cutoff_age (run_loop (replicate 1800 3200)
     (setup_state\<lparr>cellstate := e_CellNorm, cellstate_pending := e_CellNorm\<rparr>)) = c_NoCutoffEvent"
proof -
  let ?s = "setup_state\<lparr>cellstate := e_CellNorm, cellstate_pending := e_CellNorm\<rparr>"
  have st: "steady_normal ?s"
    by (simp add: steady_normal_def setup_state_def c_MovingAverageWindow_def)
  have h0: "last_cutoff_age ?s = 0"
    by (simp add: setup_state_def)
  have h1: "\<forall>st \<in> set (loop_trace (replicate n 3200) ?s). cellstate st = e_CellNorm" for n
    using steady_normal_run [OF st, of n] by (simp add: steady_normal_def)
  have h2: "cellstate (fst (loop 3200 ?s)) = e_CellNorm"
    using steady_normal_loop [OF st] by (simp add: steady_normal_def)
  have ne: "last_cutoff_age ?s \<noteq> c_NoCutoffEvent"
    "last_cutoff_age ?s + 1 < c_RecentCutOffDuration"
    by (simp_all add: h0 c_NoCutoffEvent_def c_RecentCutOffDuration_def)
  have one: "last_cutoff_age (fst (loop 3200 ?s)) = last_cutoff_age ?s + 1"
    using recency_counter [of 3200 ?s "[]"] h2 ne by presburger
  have run: "last_cutoff_age (run_loop (replicate n 3200) ?s) =
      (if length (replicate n (3200 :: long)) < unat c_RecentCutOffDuration
       then word_of_nat (length (replicate n (3200 :: long))) else c_NoCutoffEvent)" for n
    using recency_counter [of 3200 ?s "replicate n 3200"] h0 h1 [of n] by blast
  have "last_cutoff_age (run_loop (replicate 1799 3200) ?s) = 1799"
    unfolding run by (simp add: unat_RecentCutOffDuration)
  moreover have "last_cutoff_age (run_loop (replicate 1800 3200) ?s) = c_NoCutoffEvent"
    unfolding run by (simp add: unat_RecentCutOffDuration)
  ultimately show ?thesis
    using h0 h2 one by simp
qed

text \<open>
  C10 (as the code behaves).  After power-on the recency counter is 0, not the sentinel,
  just as after a cutoff pass, and it is incremented on every pass, the start-up passes
  in \<open>e_CellInvalid\<close> included.  On pass number \<open>length vccs + 1\<close> after power-on, with no
  cutoff state committed on any earlier pass and the committed state \<open>e_CellNorm\<close> on
  this one, the counter ends as the pass number while that is below
  \<open>c_RecentCutOffDuration\<close> and as the sentinel otherwise; and when the module is not
  shunting, the indicator pulse of this pass is the inverted one exactly while the pass
  number is below \<open>c_RecentCutOffDuration\<close>, and the plain one from then on.  The
  duration runs from power-on, as it runs from the cutoff pass after a cutoff.
\<close>

theorem power_on_recency:
  assumes "\<forall>st \<in> set (loop_trace vccs setup_state).
             cellstate st \<noteq> e_CellLVC \<and> cellstate st \<noteq> e_CellHVC"
    and "cellstate (fst (loop vcc (run_loop vccs setup_state))) = e_CellNorm"
  shows "last_cutoff_age setup_state = 0 \<and> last_cutoff_age setup_state \<noteq> c_NoCutoffEvent \<and>
     last_cutoff_age (fst (loop vcc (run_loop vccs setup_state))) =
       (if length vccs + 1 < unat c_RecentCutOffDuration then word_of_nat (length vccs + 1)
        else c_NoCutoffEvent) \<and>
     (\<not> shunting (fst (loop vcc (run_loop vccs setup_state))) \<longrightarrow>
        snd (loop vcc (run_loop vccs setup_state)) =
          [LED_OFF, SHUNT_OFF, delayMicroseconds 200, LOOP_CLOSE, SHUNT_OFF] @
          (if length vccs + 1 < unat c_RecentCutOffDuration
           then [LED_OFF, delay 20, LED_ON] else [LED_ON, delay 20, LED_OFF]) @
          [deep_sleep 1000])"
proof -
  have zero: "last_cutoff_age setup_state = 0"
    by (simp add: setup_state_def)
  then have ne: "last_cutoff_age setup_state \<noteq> c_NoCutoffEvent"
    by (simp add: c_NoCutoffEvent_def)
  from zero ne power_on_pass [OF assms] show ?thesis
    by blast
qed

theorem power_on_recency_witness:
  "snd (loop 3200 (run_loop (replicate 5 3200) setup_state)) =
     [LED_OFF, SHUNT_OFF, delayMicroseconds 200, LOOP_CLOSE, SHUNT_OFF,
      LED_OFF, delay 20, LED_ON, deep_sleep 1000] \<and>
   last_cutoff_age (fst (loop 3200 (run_loop (replicate 5 3200) setup_state))) = 6 \<and>
   snd (loop 3200 (run_loop (replicate 1798 3200) setup_state)) =
     [LED_OFF, SHUNT_OFF, delayMicroseconds 200, LOOP_CLOSE, SHUNT_OFF,
      LED_OFF, delay 20, LED_ON, deep_sleep 1000] \<and>
   last_cutoff_age (fst (loop 3200 (run_loop (replicate 1798 3200) setup_state))) = 1799 \<and>
   snd (loop 3200 (run_loop (replicate 1799 3200) setup_state)) =
     [LED_OFF, SHUNT_OFF, delayMicroseconds 200, LOOP_CLOSE, SHUNT_OFF,
      LED_ON, delay 20, LED_OFF, deep_sleep 1000] \<and>
   last_cutoff_age (fst (loop 3200 (run_loop (replicate 1799 3200) setup_state)))
     = c_NoCutoffEvent"
proof -
  let ?five = "replicate 5 (3200 :: long)"
  have a1: "\<forall>st \<in> set (loop_trace ?five setup_state).
             cellstate st \<noteq> e_CellLVC \<and> cellstate st \<noteq> e_CellHVC"
    by code_simp
  have a2: "cellstate (fst (loop 3200 (run_loop ?five setup_state))) = e_CellNorm"
    by code_simp
  have a3: "\<not> shunting (fst (loop 3200 (run_loop ?five setup_state)))"
    by code_simp
  have six: "snd (loop 3200 (run_loop ?five setup_state)) =
     [LED_OFF, SHUNT_OFF, delayMicroseconds 200, LOOP_CLOSE, SHUNT_OFF,
      LED_OFF, delay 20, LED_ON, deep_sleep 1000]"
    "last_cutoff_age (fst (loop 3200 (run_loop ?five setup_state))) = 6"
    using power_on_recency [OF a1 a2] a3 by (simp_all add: unat_RecentCutOffDuration)
  have b1: "\<forall>st \<in> set (loop_trace (replicate (6 + m) 3200) setup_state).
             cellstate st \<noteq> e_CellLVC \<and> cellstate st \<noteq> e_CellHVC" for m
    using power_on_steady [of m] by blast
  have b2: "cellstate (fst (loop 3200 (run_loop (replicate (6 + m) 3200) setup_state)))
      = e_CellNorm" for m
    using power_on_steady [of m] steady_normal_loop by (simp add: steady_normal_def)
  have b3: "\<not> shunting (fst (loop 3200 (run_loop (replicate (6 + m) 3200) setup_state)))" for m
    using power_on_steady [of m] steady_normal_loop by (simp add: steady_normal_def)
  have late: "snd (loop 3200 (run_loop (replicate 1798 3200) setup_state)) =
     [LED_OFF, SHUNT_OFF, delayMicroseconds 200, LOOP_CLOSE, SHUNT_OFF,
      LED_OFF, delay 20, LED_ON, deep_sleep 1000]"
    "last_cutoff_age (fst (loop 3200 (run_loop (replicate 1798 3200) setup_state))) = 1799"
    using power_on_recency [OF b1 [of 1792] b2 [of 1792]] b3 [of 1792]
    by (simp_all add: unat_RecentCutOffDuration)
  have after: "snd (loop 3200 (run_loop (replicate 1799 3200) setup_state)) =
     [LED_OFF, SHUNT_OFF, delayMicroseconds 200, LOOP_CLOSE, SHUNT_OFF,
      LED_ON, delay 20, LED_OFF, deep_sleep 1000]"
    "last_cutoff_age (fst (loop 3200 (run_loop (replicate 1799 3200) setup_state)))
      = c_NoCutoffEvent"
    using power_on_recency [OF b1 [of 1793] b2 [of 1793]] b3 [of 1793]
    by (simp_all add: unat_RecentCutOffDuration)
  from six late after show ?thesis by blast
qed

text \<open>
  C10 as stated fails: the claim counts the duration in passes of committed-Normal
  operation.  With a constant reading of 3200 mV the first five passes after power-on end
  in \<open>e_CellInvalid\<close> and every later one in \<open>e_CellNorm\<close>; pass 1800 is only the 1795th
  pass in \<open>e_CellNorm\<close>, and it already pins the counter and shows the plain pulse.
\<close>

theorem power_on_normal_passes_counterexample:
  "map cellstate (loop_trace (replicate 1800 3200) setup_state) =
     [e_CellInvalid, e_CellInvalid, e_CellInvalid, e_CellInvalid, e_CellInvalid, e_CellNorm]
       @ replicate 1794 e_CellNorm \<and>
   count_list (map cellstate (loop_trace (replicate 1800 3200) setup_state)) e_CellNorm = 1795 \<and>
   1795 < unat c_RecentCutOffDuration \<and>
   snd (loop 3200 (run_loop (replicate 1799 3200) setup_state)) =
     [LED_OFF, SHUNT_OFF, delayMicroseconds 200, LOOP_CLOSE, SHUNT_OFF,
      LED_ON, delay 20, LED_OFF, deep_sleep 1000] \<and>
   last_cutoff_age (fst (loop 3200 (run_loop (replicate 1799 3200) setup_state)))
     = c_NoCutoffEvent"
proof -
  let ?s6 = "run_loop (replicate 6 3200) setup_state"
  have first: "map cellstate (loop_trace (replicate 6 3200) setup_state) =
     [e_CellInvalid, e_CellInvalid, e_CellInvalid, e_CellInvalid, e_CellInvalid, e_CellNorm]"
    by code_simp
  have s6: "steady_normal ?s6"
    by code_simp
  have split: "replicate 1800 (3200 :: long) = replicate 6 3200 @ replicate 1794 3200"
    using replicate_add [of 6 1794 "3200 :: long"] by simp
  have trace: "map cellstate (loop_trace (replicate 1800 3200) setup_state) =
     [e_CellInvalid, e_CellInvalid, e_CellInvalid, e_CellInvalid, e_CellInvalid, e_CellNorm]
       @ replicate 1794 e_CellNorm"
    unfolding split loop_trace_append
    by (simp only: map_append first steady_normal_cellstates [OF s6])
  have count: "count_list (map cellstate (loop_trace (replicate 1800 3200) setup_state))
      e_CellNorm = 1795"
    unfolding trace by (simp add: count_list_replicate_same)
  have b1: "\<forall>st \<in> set (loop_trace (replicate (6 + 1793) 3200) setup_state).
             cellstate st \<noteq> e_CellLVC \<and> cellstate st \<noteq> e_CellHVC"
    using power_on_steady [of 1793] by blast
  have st: "steady_normal (fst (loop 3200 (run_loop (replicate (6 + 1793) 3200) setup_state)))"
    using power_on_steady [of 1793] steady_normal_loop by blast
  then have b2: "cellstate (fst (loop 3200 (run_loop (replicate (6 + 1793) 3200) setup_state)))
      = e_CellNorm"
    and b3: "\<not> shunting (fst (loop 3200 (run_loop (replicate (6 + 1793) 3200) setup_state)))"
    by (simp_all add: steady_normal_def)
  have "snd (loop 3200 (run_loop (replicate (6 + 1793) 3200) setup_state)) =
     [LED_OFF, SHUNT_OFF, delayMicroseconds 200, LOOP_CLOSE, SHUNT_OFF,
      LED_ON, delay 20, LED_OFF, deep_sleep 1000]"
    using power_on_pass(2) [OF b1 b2 b3] by (simp add: unat_RecentCutOffDuration)
  moreover have "last_cutoff_age (fst (loop 3200 (run_loop (replicate (6 + 1793) 3200) setup_state)))
      = c_NoCutoffEvent"
    using power_on_pass(1) [OF b1 b2] by (simp add: unat_RecentCutOffDuration)
  ultimately show ?thesis
    using trace count by (simp add: unat_RecentCutOffDuration)
qed

section \<open>End-to-end scenario\<close>

text \<open>
  C3.  Window of five slots initialised to 3200 mV, settle time 3, readings 3200, 3200,
  3200 and then 2850 on every pass.  The filtered values are 3200, 3200, 3200, 3130,
  3060, 2990, 2920, 2850, ...: the filtered value is at or below the low-voltage engage
  threshold (2900) for the first time on pass 8.  The claim, like the comment on
  \<open>c_StateSettleTime\<close>, expects the commit of \<open>e_CellLVC\<close> one pass for the pending state
  and three settle passes later, on pass 12.  In the code pass 8 sets the pending state
  to \<open>e_CellLVC\<close> with age 0, passes 9 to 12 raise the age to 4, the committed state on
  pass 12 is still \<open>e_CellNorm\<close>, and it becomes \<open>e_CellLVC\<close> on pass 13.
\<close>

theorem scenario_commit:
  "map cellvoltage (loop_trace scenario_readings setup_state) =
     [3200, 3200, 3200, 3130, 3060, 2990, 2920, 2850, 2850, 2850, 2850, 2850, 2850] \<and>
   \<not> 2920 \<le>s c_LVoltage_engage \<and> 2850 \<le>s c_LVoltage_engage \<and>
   map cellstate (loop_trace scenario_readings setup_state) =
     [e_CellInvalid, e_CellInvalid, e_CellInvalid, e_CellInvalid, e_CellInvalid,
      e_CellNorm, e_CellNorm, e_CellNorm, e_CellNorm, e_CellNorm, e_CellNorm, e_CellNorm,
      e_CellLVC] \<and>
   map cellstate_pending (loop_trace scenario_readings setup_state) =
     [e_CellNorm, e_CellNorm, e_CellNorm, e_CellNorm, e_CellNorm, e_CellNorm, e_CellNorm,
      e_CellLVC, e_CellLVC, e_CellLVC, e_CellLVC, e_CellLVC, e_CellLVC] \<and>
   map cellstate_pending_age (loop_trace scenario_readings setup_state) =
     [0, 1, 2, 3, 4, 4, 4, 0, 1, 2, 3, 4, 4] \<and>
   cellstate (run_loop (take (8 + 4) scenario_readings) setup_state) = e_CellNorm"
  by code_simp

section \<open>Voltage filter: one push and a full window\<close>

text \<open>
  C8.  In a state whose window has \<open>c_MovingAverageWindow\<close> slots and whose cursor lies
  inside the window, one push overwrites exactly the slot at the cursor, leaves every
  other slot as it was, advances the cursor modulo the window size, and returns the sum
  of all slots divided by the window size, which is the integer mean truncated towards
  zero whenever the sum of the slots is representable in the 32-bit \<open>long\<close> that holds
  it.  Pushing a reading \<open>v\<close> window-size times in a row yields exactly \<open>v\<close>, for every
  \<open>v\<close> whose window-size multiple is representable in that \<open>long\<close> (beyond that range the
  C sum has no defined value).  This covers every reading the firmware takes: the
  calibrated value \<open>readVcc\<close> computes from any conversion result from 1 to 1023, and
  the raw conversion results from 0 to 1023 that the calibration mode filters.
\<close>

theorem filter_push:
  assumes "length (avg_buffer s) = c_MovingAverageWindow"
    and "avg_index s < c_MovingAverageWindow"
  shows "avg_buffer (snd (moving_average val s)) = (avg_buffer s)[avg_index s := val] \<and>
    avg_buffer (snd (moving_average val s)) ! avg_index s = val \<and>
    (i \<noteq> avg_index s \<longrightarrow> avg_buffer (snd (moving_average val s)) ! i = avg_buffer s ! i) \<and>
    length (avg_buffer (snd (moving_average val s))) = c_MovingAverageWindow \<and>
    avg_index (snd (moving_average val s)) = (avg_index s + 1) mod c_MovingAverageWindow \<and>
    fst (moving_average val s) =
      long_div (sum_list (avg_buffer (snd (moving_average val s)))) (of_nat c_MovingAverageWindow) \<and>
    (- (2 ^ 31) \<le> (\<Sum>x\<leftarrow>avg_buffer (snd (moving_average val s)). sint x) \<and>
     (\<Sum>x\<leftarrow>avg_buffer (snd (moving_average val s)). sint x) < 2 ^ 31
       \<longrightarrow> sint (fst (moving_average val s)) =
             (\<Sum>x\<leftarrow>avg_buffer (snd (moving_average val s)). sint x)
               sdiv int c_MovingAverageWindow) \<and>
    (- (2 ^ 31) \<le> int c_MovingAverageWindow * sint v \<and>
     int c_MovingAverageWindow * sint v < 2 ^ 31
       \<longrightarrow> fst (push_readings (replicate c_MovingAverageWindow v) (r, s)) = v) \<and>
    (1 \<le>s adc \<and> adc \<le>s 1023
       \<longrightarrow> fst (push_readings
               (replicate c_MovingAverageWindow (readVcc calibration_factor_custom adc)) (r, s))
             = readVcc calibration_factor_custom adc) \<and>
    (0 \<le>s raw \<and> raw \<le>s 1023
       \<longrightarrow> fst (push_readings (replicate c_MovingAverageWindow raw) (r, s)) = raw)"
proof -
  let ?buf = "avg_buffer (snd (moving_average val s))"
  have slot: "?buf = (avg_buffer s)[avg_index s := val]"
    by (rule moving_average_buffer)
  have here: "?buf ! avg_index s = val"
    using assms by (simp add: slot)
  have other: "i \<noteq> avg_index s \<longrightarrow> ?buf ! i = avg_buffer s ! i"
    by (simp add: slot)
  have len: "length ?buf = c_MovingAverageWindow"
    using assms(1) by (simp add: slot)
  have idx: "avg_index (snd (moving_average val s)) = (avg_index s + 1) mod c_MovingAverageWindow"
    using assms(2) by (rule moving_average_index)
  have val: "fst (moving_average val s) = long_div (sum_list ?buf) (of_nat c_MovingAverageWindow)"
    using assms(1) by (rule moving_average_value)
  have mean: "sint (fst (moving_average val s)) =
      (\<Sum>x\<leftarrow>?buf. sint x) sdiv int c_MovingAverageWindow"
    if "- (2 ^ 31) \<le> (\<Sum>x\<leftarrow>?buf. sint x)" and "(\<Sum>x\<leftarrow>?buf. sint x) < 2 ^ 31"
    using long_div_mean [OF that] unfolding val sum_list_word_of_int [of ?buf]
    by (simp add: c_MovingAverageWindow_def)
  have full: "fst (push_readings (replicate c_MovingAverageWindow v) (r, s)) = v"
    if "- (2 ^ 31) \<le> int c_MovingAverageWindow * sint v"
      and "int c_MovingAverageWindow * sint v < 2 ^ 31"
    using assms that by (rule push_window_value)
  have vcc: "fst (push_readings
               (replicate c_MovingAverageWindow (readVcc calibration_factor_custom adc)) (r, s))
             = readVcc calibration_factor_custom adc"
    if "1 \<le>s adc" and "adc \<le>s 1023"
  proof -
    have "0 \<le> sint (readVcc calibration_factor_custom adc)"
      "sint (readVcc calibration_factor_custom adc) \<le> 1126400"
      using readVcc_range [OF that] by simp_all
    then show ?thesis
      using assms by (intro push_window_value) (simp_all add: c_MovingAverageWindow_def)
  qed
  have adc: "fst (push_readings (replicate c_MovingAverageWindow raw) (r, s)) = raw"
    if "0 \<le>s raw" and "raw \<le>s 1023"
  proof -
    have "0 \<le> sint raw" "sint raw \<le> 1023"
      using that by (simp_all add: word_sle_eq)
    then show ?thesis
      using assms by (intro push_window_value) (simp_all add: c_MovingAverageWindow_def)
  qed
  from slot here other len idx val mean full vcc adc show ?thesis
    by blast
qed

theorem filter_push_witness:
  "length (avg_buffer setup_state) = c_MovingAverageWindow \<and>
   avg_index setup_state < c_MovingAverageWindow \<and>
   avg_index (snd (moving_average 2850 setup_state)) = 1 \<and>
   sint (fst (moving_average 2850 setup_state)) = 3130 \<and>
   fst (push_readings (replicate c_MovingAverageWindow 2850) (0, setup_state)) = 2850 \<and>
   readVcc calibration_factor_custom 352 = 3200 \<and>
   fst (push_readings (replicate c_MovingAverageWindow (readVcc calibration_factor_custom 352))
     (0, setup_state)) = 3200 \<and>
   fst (push_readings (replicate c_MovingAverageWindow 1023) (0, setup_state)) = 1023"
proof -
  have h1: "length (avg_buffer setup_state) = c_MovingAverageWindow"
    by (simp add: setup_state_def)
  have h2: "avg_index setup_state < c_MovingAverageWindow"
    by (simp add: setup_state_def c_MovingAverageWindow_def)
  have h3: "- (2 ^ 31) \<le> int c_MovingAverageWindow * sint (2850 :: long)"
    "int c_MovingAverageWindow * sint (2850 :: long) < 2 ^ 31"
    by (simp_all add: c_MovingAverageWindow_def)
  have h4: "(\<Sum>x\<leftarrow>avg_buffer (snd (moving_average 2850 setup_state)). sint x) = 15650"
    by code_simp
  have h5: "avg_index setup_state = 0"
    by (simp add: setup_state_def)
  have h6: "- (2 ^ 31) \<le> (\<Sum>x\<leftarrow>avg_buffer (snd (moving_average 2850 setup_state)). sint x)"
    "(\<Sum>x\<leftarrow>avg_buffer (snd (moving_average 2850 setup_state)). sint x) < 2 ^ 31"
    unfolding h4 by simp_all
  have h7: "(1 :: long) \<le>s 352" "(352 :: long) \<le>s 1023"
    "(0 :: long) \<le>s 1023" "(1023 :: long) \<le>s 1023"
    by (simp_all add: word_sle_eq)
  have h8: "readVcc calibration_factor_custom 352 = 3200"
    by code_simp
  note t = filter_push [OF h1 h2, of 2850 1 2850 0 352 1023]
  have a: "avg_index (snd (moving_average 2850 setup_state))
      = (avg_index setup_state + 1) mod c_MovingAverageWindow"
    using t by blast
  have b: "sint (fst (moving_average 2850 setup_state)) =
      (\<Sum>x\<leftarrow>avg_buffer (snd (moving_average 2850 setup_state)). sint x)
        sdiv int c_MovingAverageWindow"
    using t h6 by blast
  have c: "fst (push_readings (replicate c_MovingAverageWindow 2850) (0, setup_state)) = 2850"
    using t h3 by blast
  have "avg_index (snd (moving_average 2850 setup_state)) = 1"
    unfolding a h5 by (simp add: c_MovingAverageWindow_def)
  moreover have "sint (fst (moving_average 2850 setup_state)) = 3130"
    unfolding b h4 by (simp add: c_MovingAverageWindow_def sdiv_five)
  moreover have "fst (push_readings
      (replicate c_MovingAverageWindow (readVcc calibration_factor_custom 352)) (0, setup_state))
      = readVcc calibration_factor_custom 352"
    using t h7 by blast
  moreover have "fst (push_readings (replicate c_MovingAverageWindow 1023) (0, setup_state))
      = 1023"
    using t h7 by blast
  ultimately show ?thesis
    using h1 h2 c h8 by simp
qed

end
